theory Spec2Isabelle
  imports Complex_Main "HOL-Library.Log_Nat"
begin

section \<open>Values of the Python program\<close>

text \<open>
  The notebooks compute on pandas Series. A Series of one area is a list of values in date
  order (the dates are a gapless daily range, so a date is a position). Cumulative counts
  are int64 columns and are modelled as \<open>int\<close>. A float64 value is modelled as a
  \<open>real\<close>. Sums, differences and comparisons of counts are exact in float64 as long as
  the counts stay within \<open>2 ^ 53\<close>, and are modelled as exact; where a quotient or a
  product is rounded and a claim depends on it, the rounding is written out with
  \<open>float64\<close> below. The theorems state the range they need: counts within \<open>2 ^ 53\<close>
  where an int64 becomes a float64, values within \<open>2 ^ 63\<close> where a float64 becomes an
  int64, bounds within \<open>2 ^ 1023\<close> where a power can overflow. The sign of zero is not
  modelled. A missing value (NaN in a float column) is \<open>None\<close> where the code creates
  one. Python exceptions are values of \<open>py_error\<close>.
\<close>

datatype py_error = IndexError | KeyError | ValueError

text \<open>\<^verbatim>\<open>Series.round(0)\<close> is numpy's rounding: to the nearest integer, a tie to the even one.\<close>

definition round_half_even :: "real \<Rightarrow> int" where
  "round_half_even x =
     (let f = \<lfloor>x\<rfloor>; d = x - of_int f
      in if d < 1 / 2 then f else if 1 / 2 < d then f + 1 else if even f then f else f + 1)"

definition round0 :: "real \<Rightarrow> real" where
  "round0 x = of_int (round_half_even x)"

text \<open>
  \<^verbatim>\<open>astype('int')\<close> on a float truncates towards zero. The model is the cast's for a value
  inside the int64 range, \<open>- 2 ^ 63 \<le> x < 2 ^ 63\<close>; outside of it the cast of numpy does
  not return the truncated value.
\<close>

definition trunc :: "real \<Rightarrow> int" where
  "trunc x = (if 0 \<le> x then \<lfloor>x\<rfloor> else \<lceil>x\<rceil>)"

text \<open>
  Rounding of a real to the nearest float64: 53 significant bits, a tie to the even one.
  \<open>binade x\<close> is the exponent of the power of two at or below a positive \<open>x\<close>, so
  \<open>x / 2 powi (binade x - 52)\<close> lies between \<open>2 ^ 52\<close> and \<open>2 ^ 53\<close>. Overflow above
  \<open>2 ^ 1024\<close> and the subnormal range below \<open>2 ^ - 1022\<close> are not modelled.
\<close>

definition binade :: "real \<Rightarrow> int" where
  "binade x = (if 1 \<le> x then bitlen \<lfloor>x\<rfloor> - 1 else - bitlen (\<lceil>1 / x\<rceil> - 1))"

definition float64 :: "real \<Rightarrow> real" where
  "float64 x =
     (if x = 0 then 0
      else (let u = 2 powi (binade \<bar>x\<bar> - 52) in of_int (round_half_even (x / u)) * u))"

section \<open>Repair of non-monotonic cumulative series\<close>

text \<open>
  The cleaning notebook repairs a table of cumulative counts, every column (area) on its own:
  \<^verbatim>\<open>
  mask = world_deaths < world_deaths.cummax()
  world_deaths_fixed = world_deaths.mask(mask).interpolate().round(0).astype('int64')
  \<close>
  (the notebook leaves the function \<^verbatim>\<open>fix_bad_data(df)\<close> that wraps these two lines as an
  exercise). \<open>world_deaths_fixed\<close> below is the repaired column of one column of counts.
  \<open>cummax\<close> is the running maximum, \<open>series_lt\<close> the element-wise comparison,
  \<open>mask_series\<close> replaces the flagged values by NaN and makes the int64 column a float64
  column (each count rounded to a float64, which changes it only above \<open>2 ^ 53\<close>),
  \<open>interpolate\<close> is pandas' default
  (method linear, forward): the values are taken as equally spaced, a run of NaN between two
  valid values is filled on the straight line between them, a run of NaN after the last valid
  value is filled with that value, and NaN before the first valid value stay.
  \<^verbatim>\<open>astype('int64')\<close> raises on a NaN that is left.
\<close>

fun cummax_from :: "int \<Rightarrow> int list \<Rightarrow> int list" where
  "cummax_from m [] = []"
| "cummax_from m (x # xs) = max m x # cummax_from (max m x) xs"

definition cummax :: "int list \<Rightarrow> int list" where
  "cummax xs = (case xs of [] \<Rightarrow> [] | x # r \<Rightarrow> x # cummax_from x r)"

definition series_lt :: "int list \<Rightarrow> int list \<Rightarrow> bool list" where
  "series_lt xs ys = map (\<lambda>(x, y). x < y) (zip xs ys)"

definition mask_series :: "int list \<Rightarrow> bool list \<Rightarrow> real option list" where
  "mask_series xs bs =
     map (\<lambda>(x, b). if b then None else Some (float64 (real_of_int x))) (zip xs bs)"

text \<open>
  \<open>next_valid ys\<close>: the number of NaN before the first valid value of \<open>ys\<close>, and that
  value; \<open>None\<close> when \<open>ys\<close> has no valid value.
\<close>

fun next_valid :: "real option list \<Rightarrow> (nat \<times> real) option" where
  "next_valid [] = None"
| "next_valid (Some v # ys) = Some (0, v)"
| "next_valid (None # ys) = (case next_valid ys of None \<Rightarrow> None | Some (n, v) \<Rightarrow> Some (Suc n, v))"

text \<open>
  \<open>interp_value a k ys\<close>: the filled value \<open>k\<close> positions after the last valid value
  \<open>a\<close>, where \<open>ys\<close> is the series after that position: on the line from \<open>a\<close> to the
  next valid value, or \<open>a\<close> itself when no valid value follows.
  \<open>interp_from a k ys\<close> fills \<open>ys\<close>, the part of the series that starts \<open>k + 1\<close>
  positions after the last valid value \<open>a\<close>.
\<close>

definition interp_value :: "real \<Rightarrow> nat \<Rightarrow> real option list \<Rightarrow> real" where
  "interp_value a k ys =
     (case next_valid ys of
        None \<Rightarrow> a
      | Some (n, b) \<Rightarrow> a + (b - a) * real k / real (k + n + 1))"

fun interp_from :: "real \<Rightarrow> nat \<Rightarrow> real option list \<Rightarrow> real list" where
  "interp_from a k [] = []"
| "interp_from a k (Some v # ys) = v # interp_from v 0 ys"
| "interp_from a k (None # ys) = interp_value a (Suc k) ys # interp_from a (Suc k) ys"

fun interpolate :: "real option list \<Rightarrow> real option list" where
  "interpolate [] = []"
| "interpolate (None # ys) = None # interpolate ys"
| "interpolate (Some v # ys) = Some v # map Some (interp_from v 0 ys)"

definition round_series :: "real option list \<Rightarrow> real option list" where
  "round_series ys = map (map_option round0) ys"

definition astype_int64 :: "real option list \<Rightarrow> py_error + int list" where
  "astype_int64 ys = (case those ys of None \<Rightarrow> Inl ValueError | Some vs \<Rightarrow> Inr (map trunc vs))"

definition world_deaths_fixed :: "int list \<Rightarrow> py_error + int list" where
  "world_deaths_fixed xs =
     astype_int64 (round_series (interpolate (mask_series xs (series_lt xs (cummax xs)))))"

text \<open>The valid values of a series with missing values, in order.\<close>

fun valids :: "'a option list \<Rightarrow> 'a list" where
  "valids [] = []"
| "valids (None # ys) = valids ys"
| "valids (Some v # ys) = v # valids ys"

section \<open>Series operations\<close>

text \<open>
  \<open>diff\<close> is \<^verbatim>\<open>Series.diff()\<close>: NaN first, then the first differences. \<open>dropna\<close> drops
  the missing values, \<open>fillna\<close> replaces them, \<open>cumsum\<close> is the running sum and
  \<open>clip0\<close> is \<^verbatim>\<open>clip(0)\<close>.
\<close>

fun diffs :: "real list \<Rightarrow> real list" where
  "diffs (x # y # r) = (y - x) # diffs (y # r)"
| "diffs r = []"

definition diff :: "real list \<Rightarrow> real option list" where
  "diff xs = (case xs of [] \<Rightarrow> [] | x # r \<Rightarrow> None # map Some (diffs xs))"

definition dropna :: "real option list \<Rightarrow> real list" where
  "dropna ys = valids ys"

definition fillna :: "real \<Rightarrow> real option list \<Rightarrow> real list" where
  "fillna c ys = map (\<lambda>y. case y of None \<Rightarrow> c | Some v \<Rightarrow> v) ys"

fun cumsum_from :: "real \<Rightarrow> real list \<Rightarrow> real list" where
  "cumsum_from acc [] = []"
| "cumsum_from acc (x # xs) = (acc + x) # cumsum_from (acc + x) xs"

definition cumsum :: "real list \<Rightarrow> real list" where
  "cumsum xs = cumsum_from 0 xs"

definition clip0 :: "real list \<Rightarrow> real list" where
  "clip0 xs = map (max 0) xs"

section \<open>The cases model: smoothing\<close>

text \<open>
  The configuration of \<^verbatim>\<open>CasesModel\<close>. \<open>last_date\<close> is the position of the last training
  date in the date index. The LOWESS smoother of statsmodels and the bounded least-squares
  solver of scipy are not code of the repository: they are parameters of the model
  (\<open>lowess frac y\<close> is \<^verbatim>\<open>lowess(y, x, frac=frac, is_sorted=True, return_sorted=False)\<close>
  on \<^verbatim>\<open>x = arange(len(y))\<close>), as is the curve \<^verbatim>\<open>self.model\<close>.
\<close>

record cases_model =
  last_date :: nat
  n_train :: nat
  n_smooth :: nat
  n_pred :: nat
  L_n_min :: nat
  L_n_max :: nat

definition MIN_OBS :: nat where
  "MIN_OBS = 15"

text \<open>
  The first lines of \<^verbatim>\<open>CasesModel.smooth\<close>: the series up to \<open>last_date\<close> (a label slice,
  the end included), cut to start at its last zero when it starts with zero, and its daily
  deltas. \<^verbatim>\<open>s.values[0]\<close> raises on an empty series.
  \<^verbatim>\<open>
  s = s[:self.last_date]
  if s.values[0] == 0:
      last_zero_date = s[s == 0].index[-1]
      s = s.loc[last_zero_date:]
      s_daily = s.diff().dropna()
  else:
      s_daily = s.diff().fillna(s.iloc[0])
  \<close>
\<close>

definition last_zero_date :: "int list \<Rightarrow> nat" where
  "last_zero_date s = last (filter (\<lambda>i. s ! i = 0) [0..<length s])"

definition smooth_daily :: "cases_model \<Rightarrow> int list \<Rightarrow> py_error + (int list \<times> real list)" where
  "smooth_daily cm s0 =
     (let s = take (Suc (last_date cm)) s0
      in case s of
           [] \<Rightarrow> Inl IndexError
         | v0 # r \<Rightarrow>
             if v0 = 0 then
               (let s' = drop (last_zero_date s) s
                in Inr (s', dropna (diff (map real_of_int s'))))
             else Inr (s, fillna (real_of_int v0) (diff (map real_of_int s))))"

text \<open>
  The rest of \<^verbatim>\<open>CasesModel.smooth\<close>. Building the Series of the smoothed deltas on the
  index of \<^verbatim>\<open>s_daily\<close> raises when the lengths differ. The last two lines compute the
  quotient once, rounded to a float64, and multiply every value by it, each product rounded.
  \<^verbatim>\<open>
  if len(s_daily) < MIN_OBS:
      return s_daily.cumsum()
  y = s_daily.values
  frac = self.n_smooth / len(y)
  x = np.arange(len(y))
  y_pred = lowess(y, x, frac=frac, is_sorted=True, return_sorted=False)
  s_pred = pd.Series(y_pred, index=s_daily.index).clip(0)
  s_pred_cumulative = s_pred.cumsum()
  if s_pred_cumulative[-1]  == 0:
      return s_daily.cumsum()
  last_actual = s.values[-1]
  last_smoothed = s_pred_cumulative.values[-1]
  s_pred_cumulative *= last_actual / last_smoothed
  return s_pred_cumulative
  \<close>
\<close>

definition lowess_cumulative :: "(real \<Rightarrow> real list \<Rightarrow> real list) \<Rightarrow> cases_model \<Rightarrow> real list \<Rightarrow> real list" where
  "lowess_cumulative lowess cm y =
     cumsum (clip0 (lowess (real (n_smooth cm) / real (length y)) y))"

definition smooth :: "(real \<Rightarrow> real list \<Rightarrow> real list) \<Rightarrow> cases_model \<Rightarrow> int list \<Rightarrow> py_error + real list" where
  "smooth lowess cm s0 =
     (case smooth_daily cm s0 of
        Inl e \<Rightarrow> Inl e
      | Inr (s, s_daily) \<Rightarrow>
          if length s_daily < MIN_OBS then Inr (cumsum s_daily)
          else if length (lowess (real (n_smooth cm) / real (length s_daily)) s_daily) \<noteq> length s_daily
          then Inl ValueError
          else
            (let s_pred_cumulative = lowess_cumulative lowess cm s_daily
             in if last s_pred_cumulative = 0 then Inr (cumsum s_daily)
                else
                  (let last_actual = real_of_int (last s);
                       last_smoothed = last s_pred_cumulative
                   in Inr (map (\<lambda>v. float64 (v * float64 (last_actual / last_smoothed)))
                             s_pred_cumulative))))"

text \<open>\<^verbatim>\<open>smoothed.iloc[-self.n_train:]\<close>: the last \<open>n_train\<close> values; all of them when \<open>n_train\<close> is 0.\<close>

definition get_train :: "cases_model \<Rightarrow> real list \<Rightarrow> real list" where
  "get_train cm smoothed =
     (if n_train cm = 0 then smoothed else drop (length smoothed - n_train cm) smoothed)"

section \<open>The cases model: forecast\<close>

text \<open>
  The generalized logistic curve with its five parameters \<open>L\<close>, \<open>x0\<close>, \<open>k\<close>, \<open>v\<close>, \<open>s\<close>:
  \<^verbatim>\<open>
  def general_logistic_shift(x, L, x0, k, v, s):
      return (L - s) / ((1 + np.exp(-k * (x - x0))) ** (1 / v)) + s
  \<close>
  The base of the power is above 1, so the power is \<open>powr\<close>. The model is the code's for
  \<open>v \<noteq> 0\<close> (the bounds of the fit keep \<open>v\<close> at 0.01 or more).
\<close>

type_synonym params = "real \<times> real \<times> real \<times> real \<times> real"


text \<open>\<^verbatim>\<open>np.arange(a, b)\<close> on integers: \<open>a\<close>, \<open>a + 1\<close>, ..., \<open>b - 1\<close>.\<close>

definition arange :: "int \<Rightarrow> int \<Rightarrow> int list" where
  "arange a b = map (\<lambda>i. a + int i) [0..<nat (b - a)]"

text \<open>
  \<^verbatim>\<open>
  def get_pred_daily(self, n_train, params):
      x_pred = np.arange(n_train - 1, n_train + self.n_pred)
      y_pred = self.model(x_pred, *params)
      y_pred_daily = np.diff(y_pred)
      return pd.Series(y_pred_daily, index=self.pred_index)

  def get_pred_cumulative(self, s, pred_daily):
      last_actual_value = s.loc[self.last_date]
      return pred_daily.cumsum() + last_actual_value
  \<close>
  \<^verbatim>\<open>s.loc[self.last_date]\<close> raises when the date is not in the index of the series.
\<close>

definition get_pred_daily :: "(real \<Rightarrow> params \<Rightarrow> real) \<Rightarrow> cases_model \<Rightarrow> nat \<Rightarrow> params \<Rightarrow> real list" where
  "get_pred_daily model cm n_train' ps =
     (let x_pred = arange (int n_train' - 1) (int n_train' + int (n_pred cm));
          y_pred = map (\<lambda>x. model (real_of_int x) ps) x_pred
      in diffs y_pred)"

definition get_pred_cumulative :: "cases_model \<Rightarrow> int list \<Rightarrow> real list \<Rightarrow> py_error + real list" where
  "get_pred_cumulative cm s pred_daily =
     (if last_date cm < length s
      then Inr (map (\<lambda>v. v + real_of_int (s ! last_date cm)) (cumsum pred_daily))
      else Inl KeyError)"

text \<open>
  The forecast of one area in \<^verbatim>\<open>CasesModel.run\<close>: the daily deltas of the fitted curve are
  rounded; \<open>pred_tables\<close> is what follows for every area, the cumulative series on top of
  the last actual value, and both series cast to int.
  \<^verbatim>\<open>
  pred_daily = self.get_pred_daily(n_train, params).round(0)
  pred_cumulative = self.get_pred_cumulative(s, pred_daily)
  self.pred_daily[gk][area] = pred_daily.astype('int')
  self.pred_cumulative[gk][area] = pred_cumulative.astype('int')
  \<close>
\<close>

definition pred_tables :: "cases_model \<Rightarrow> int list \<Rightarrow> real list \<Rightarrow> py_error + (int list \<times> int list)" where
  "pred_tables cm s pred_daily =
     (case get_pred_cumulative cm s pred_daily of
        Inl e \<Rightarrow> Inl e
      | Inr pred_cumulative \<Rightarrow> Inr (map trunc pred_daily, map trunc pred_cumulative))"

section \<open>Floats with infinities and NaN\<close>

text \<open>
  Where the code divides by a value that can be zero, the result can be an infinity or NaN,
  and the code's own handling of them (\<^verbatim>\<open>fillna\<close>, \<^verbatim>\<open>np.isnan\<close>) is what the claims are
  about. \<open>fl\<close> is a float64 with these special values. On finite values the operations are
  those of the reals, with the overflow of float64: a result of magnitude
  \<open>2 ^ 1024 - 2 ^ 970\<close> or more (half a unit in the last place above the largest double) is
  the infinity of its sign; the rounding of a result that stays finite is not modelled. A
  division by zero gives an infinity with the sign of the numerator (the zero taken as
  positive), and NaN for zero by zero.
\<close>

datatype fl = Fin real | PInf | NInf | NaN

definition float64_overflow :: real where
  "float64_overflow = 2 ^ 1024 - 2 ^ 970"

definition fl_of_real :: "real \<Rightarrow> fl" where
  "fl_of_real x =
     (if float64_overflow \<le> x then PInf else if x \<le> - float64_overflow then NInf else Fin x)"

fun fneg :: "fl \<Rightarrow> fl" where
  "fneg (Fin a) = Fin (- a)"
| "fneg PInf = NInf"
| "fneg NInf = PInf"
| "fneg NaN = NaN"

fun fadd :: "fl \<Rightarrow> fl \<Rightarrow> fl" where
  "fadd (Fin a) (Fin b) = fl_of_real (a + b)"
| "fadd NaN y = NaN"
| "fadd x NaN = NaN"
| "fadd PInf NInf = NaN"
| "fadd NInf PInf = NaN"
| "fadd PInf y = PInf"
| "fadd x PInf = PInf"
| "fadd NInf y = NInf"
| "fadd x NInf = NInf"

definition fsub :: "fl \<Rightarrow> fl \<Rightarrow> fl" where
  "fsub x y = fadd x (fneg y)"

text \<open>The sign of a float that is not NaN, as \<open>-1\<close>, \<open>0\<close> or \<open>1\<close>.\<close>

fun fsgn :: "fl \<Rightarrow> int" where
  "fsgn (Fin a) = (if a < 0 then - 1 else if a = 0 then 0 else 1)"
| "fsgn PInf = 1"
| "fsgn NInf = - 1"
| "fsgn NaN = 0"

definition inf_of_sign :: "int \<Rightarrow> fl" where
  "inf_of_sign i = (if i = 0 then NaN else if 0 < i then PInf else NInf)"

fun fmul :: "fl \<Rightarrow> fl \<Rightarrow> fl" where
  "fmul (Fin a) (Fin b) = fl_of_real (a * b)"
| "fmul NaN y = NaN"
| "fmul x NaN = NaN"
| "fmul x y = inf_of_sign (fsgn x * fsgn y)"

fun fdiv :: "fl \<Rightarrow> fl \<Rightarrow> fl" where
  "fdiv (Fin a) (Fin b) = (if b = 0 then inf_of_sign (fsgn (Fin a)) else fl_of_real (a / b))"
| "fdiv NaN y = NaN"
| "fdiv x NaN = NaN"
| "fdiv (Fin a) y = Fin 0"
| "fdiv x (Fin b) = inf_of_sign (fsgn x * (if b < 0 then - 1 else 1))"
| "fdiv x y = NaN"

text \<open>A float to a power that is a natural number (\<^verbatim>\<open>x ** n\<close>): anything to the power 0 is 1.\<close>

fun fpow :: "fl \<Rightarrow> nat \<Rightarrow> fl" where
  "fpow x 0 = Fin 1"
| "fpow (Fin a) n = fl_of_real (a ^ n)"
| "fpow PInf n = PInf"
| "fpow NInf n = (if even n then PInf else NInf)"
| "fpow NaN n = NaN"

text \<open>Comparison: false as soon as one side is NaN.\<close>

fun fle :: "fl \<Rightarrow> fl \<Rightarrow> bool" where
  "fle (Fin a) (Fin b) = (a \<le> b)"
| "fle NaN y = False"
| "fle x NaN = False"
| "fle NInf y = True"
| "fle x PInf = True"
| "fle x y = False"

definition isnan :: "fl \<Rightarrow> bool" where
  "isnan x = (x = NaN)"

text \<open>\<^verbatim>\<open>fillna(c)\<close> on a float: only NaN is replaced, an infinity is not.\<close>

definition fl_fillna :: "real \<Rightarrow> fl \<Rightarrow> fl" where
  "fl_fillna c x = (if isnan x then Fin c else x)"

section \<open>The cases model: bounds and initial guess\<close>

text \<open>
  \<^verbatim>\<open>Series.pct_change()\<close>: NaN first, then each value divided by the one before, minus 1.
\<close>

fun pct_pairs :: "real list \<Rightarrow> fl list" where
  "pct_pairs (x # y # r) = fsub (fdiv (Fin y) (Fin x)) (Fin 1) # pct_pairs (y # r)"
| "pct_pairs r = []"

definition pct_change :: "real list \<Rightarrow> fl list" where
  "pct_change xs = (case xs of [] \<Rightarrow> [] | x # r \<Rightarrow> NaN # pct_pairs xs)"

type_synonym fl5 = "fl \<times> fl \<times> fl \<times> fl \<times> fl"

text \<open>
  The growth ratio of both versions of \<^verbatim>\<open>get_L_limits\<close>, the last percent change plus one:
  \<^verbatim>\<open>last_pct = s.pct_change()[-1] + 1\<close>.
\<close>

definition last_pct :: "real list \<Rightarrow> fl" where
  "last_pct s = fadd (last (pct_change s)) (Fin 1)"

text \<open>
  The method of \<^verbatim>\<open>CasesModel\<close> (chapter 8). \<^verbatim>\<open>s[-1]\<close> raises on an empty series.
  \<^verbatim>\<open>
  def get_L_limits(self, s):
      last_val = s[-1]
      last_pct = s.pct_change()[-1] + 1
      L_min = last_val * last_pct ** self.L_n_min
      L_max = last_val * last_pct ** self.L_n_max + 1
      L0 = (L_max - L_min) / 2 + L_min
      return L_min, L_max, L0
  \<close>
\<close>

definition get_L_limits :: "cases_model \<Rightarrow> real list \<Rightarrow> py_error + (fl \<times> fl \<times> fl)" where
  "get_L_limits cm s =
     (if s = [] then Inl IndexError
      else
        (let last_val = Fin (last s);
             last_pct' = last_pct s;
             L_min = fmul last_val (fpow last_pct' (L_n_min cm));
             L_max = fadd (fmul last_val (fpow last_pct' (L_n_max cm))) (Fin 1);
             L0 = fadd (fdiv (fsub L_max L_min) (Fin 2)) L_min
         in Inr (L_min, L_max, L0)))"

text \<open>
  The function of chapter 7, which the method above rewrites. It ends with a guard:
  \<^verbatim>\<open>
  if np.isnan(L_min):
      L_min, L_max, L0 = 0, 1, 0
  return L_min, L_max, L0
  \<close>
\<close>

definition get_L_limits_nb07 :: "real list \<Rightarrow> nat \<Rightarrow> nat \<Rightarrow> py_error + (fl \<times> fl \<times> fl)" where
  "get_L_limits_nb07 s n1 n2 =
     (if s = [] then Inl IndexError
      else
        (let last_val = Fin (last s);
             last_pct' = last_pct s;
             L_min = fmul last_val (fpow last_pct' n1);
             L_max = fadd (fmul last_val (fpow last_pct' n2)) (Fin 1);
             L0 = fadd (fdiv (fsub L_max L_min) (Fin 2)) L_min
         in if isnan L_min then Inr (Fin 0, Fin 1, Fin 0) else Inr (L_min, L_max, L0)))"

text \<open>
  \<^verbatim>\<open>
  def get_bounds_p0(self, s):
      L_min, L_max, L0 = self.get_L_limits(s)
      x0_min, x0_max = -50, 50
      k_min, k_max = 0.01, 0.5
      v_min, v_max = 0.01, 2
      s_min, s_max = 0, s[-1] + 0.01
      s0 = s_max / 2
      lower = L_min, x0_min, k_min, v_min, s_min
      upper = L_max, x0_max, k_max, v_max, s_max
      bounds = lower, upper
      p0 = L0, 0, 0.1, 0.1, s0
      return bounds, p0
  \<close>
  The function of chapter 7 is the same with \<^verbatim>\<open>k_max = 0.1\<close> and its own \<^verbatim>\<open>get_L_limits\<close>.
\<close>

definition bounds_p0_of :: "real \<Rightarrow> fl \<times> fl \<times> fl \<Rightarrow> real list \<Rightarrow> (fl5 \<times> fl5) \<times> fl5" where
  "bounds_p0_of k_max' Ls s =
     (case Ls of (L_min, L_max, L0) \<Rightarrow>
        (let x0_min = Fin (- 50); x0_max = Fin 50;
             k_min = Fin (1 / 100); k_max = Fin k_max';
             v_min = Fin (1 / 100); v_max = Fin 2;
             s_min = Fin 0; s_max = fadd (Fin (last s)) (Fin (1 / 100));
             s0 = fdiv s_max (Fin 2);
             lower = (L_min, x0_min, k_min, v_min, s_min);
             upper = (L_max, x0_max, k_max, v_max, s_max);
             bounds = (lower, upper);
             p0 = (L0, Fin 0, Fin (1 / 10), Fin (1 / 10), s0)
         in (bounds, p0)))"

definition get_bounds_p0 :: "cases_model \<Rightarrow> real list \<Rightarrow> py_error + ((fl5 \<times> fl5) \<times> fl5)" where
  "get_bounds_p0 cm s =
     (case get_L_limits cm s of Inl e \<Rightarrow> Inl e | Inr Ls \<Rightarrow> Inr (bounds_p0_of (1 / 2) Ls s))"

definition get_bounds_p0_nb07 :: "real list \<Rightarrow> nat \<Rightarrow> nat \<Rightarrow> py_error + ((fl5 \<times> fl5) \<times> fl5)" where
  "get_bounds_p0_nb07 s n1 n2 =
     (case get_L_limits_nb07 s n1 n2 of Inl e \<Rightarrow> Inl e | Inr Ls \<Rightarrow> Inr (bounds_p0_of (1 / 10) Ls s))"

text \<open>Every initial guess within its own bounds, as the comparisons of floats decide it.\<close>

definition p0_within_bounds :: "(fl5 \<times> fl5) \<times> fl5 \<Rightarrow> bool" where
  "p0_within_bounds bp =
     (case bp of (((L_min, x0_min, k_min, v_min, s_min), (L_max, x0_max, k_max, v_max, s_max)),
                  (L0, x00, k0, v0, s0)) \<Rightarrow>
        fle L_min L0 \<and> fle L0 L_max \<and> fle x0_min x00 \<and> fle x00 x0_max \<and>
        fle k_min k0 \<and> fle k0 k_max \<and> fle v_min v0 \<and> fle v0 v_max \<and>
        fle s_min s0 \<and> fle s0 s_max)"

section \<open>The cases model: one area of \<^verbatim>\<open>run\<close>\<close>






record area_result =
  smoothed :: "real list"
  bounds :: "fl5 \<times> fl5"
  p0 :: fl5
  params :: fl5
  pred_daily :: "int list"
  pred_cumulative :: "int list"


section \<open>The deaths model: case fatality ratio\<close>

text \<open>
  \<^verbatim>\<open>DeathsModel.calculate_cfr\<close> for one area. A date is a position in the date index, and
  \<^verbatim>\<open>.loc\<close> raises on a date outside of it. The totals are differences of int64 counts;
  their quotient is a float.
  \<^verbatim>\<open>
  first_day_deaths = self.last_date - pd.Timedelta(f'{self.period}D')
  last_day_cases = self.last_date - pd.Timedelta(f'{self.lag}D')
  first_day_cases = last_day_cases - pd.Timedelta(f'{self.period}D')
  ...
  deaths_total = deaths.loc[self.last_date] - deaths.loc[first_day_deaths]
  cases_total = cases.loc[last_day_cases] - cases.loc[first_day_cases]
  cfr[group] = (deaths_total / cases_total).fillna(0.01)
  \<close>
\<close>

record deaths_model =
  dm_last_date :: int
  lag :: int
  period :: int

definition loc :: "int list \<Rightarrow> int \<Rightarrow> py_error + int" where
  "loc s d = (if 0 \<le> d \<and> d < int (length s) then Inr (s ! nat d) else Inl KeyError)"

definition window_total :: "int list \<Rightarrow> int \<Rightarrow> int \<Rightarrow> py_error + int" where
  "window_total s last_day first_day =
     (case loc s last_day of
        Inl e \<Rightarrow> Inl e
      | Inr a \<Rightarrow> (case loc s first_day of Inl e \<Rightarrow> Inl e | Inr b \<Rightarrow> Inr (a - b)))"

definition calculate_cfr :: "deaths_model \<Rightarrow> int list \<Rightarrow> int list \<Rightarrow> py_error + fl" where
  "calculate_cfr dm deaths cases =
     (let first_day_deaths = dm_last_date dm - period dm;
          last_day_cases = dm_last_date dm - lag dm;
          first_day_cases = last_day_cases - period dm
      in case window_total deaths (dm_last_date dm) first_day_deaths of
           Inl e \<Rightarrow> Inl e
         | Inr deaths_total \<Rightarrow>
             (case window_total cases last_day_cases first_day_cases of
                Inl e \<Rightarrow> Inl e
              | Inr cases_total \<Rightarrow>
                  Inr (fl_fillna (1 / 100)
                         (fdiv (Fin (real_of_int deaths_total)) (Fin (real_of_int cases_total))))))"

section \<open>Rounding\<close>

lemma round_half_even_of_int: "round_half_even (of_int n) = n"
  by (simp add: round_half_even_def)

lemma round_half_even_bounds: "\<lfloor>x\<rfloor> \<le> round_half_even x \<and> round_half_even x \<le> \<lfloor>x\<rfloor> + 1"
  by (simp add: round_half_even_def Let_def)

lemma round_half_even_mono:
  assumes "x \<le> y"
  shows "round_half_even x \<le> round_half_even y"
proof (cases "\<lfloor>x\<rfloor> = \<lfloor>y\<rfloor>")
  case True
  with assms show ?thesis
    by (auto simp: round_half_even_def Let_def)
next
  case False
  with assms have "\<lfloor>x\<rfloor> + 1 \<le> \<lfloor>y\<rfloor>"
    using floor_mono [of x y] by linarith
  then show ?thesis
    using round_half_even_bounds [of x] round_half_even_bounds [of y] by linarith
qed


lemma trunc_of_int: "trunc (of_int n) = n"
  by (simp add: trunc_def)

section \<open>Rounding to float64\<close>

text \<open>
  \<open>float64\<close> rounds with a relative error of at most \<open>2 ^ - 53\<close>, keeps the sign, is
  monotone on the non-negative reals, and leaves an integer within \<open>2 ^ 53\<close> as it is.
\<close>

lemma binade_bounds:
  assumes "0 < x"
  shows "2 powi binade x \<le> x \<and> x < 2 powi (binade x + 1)"
proof (cases "1 \<le> x")
  case True
  define n where "n = \<lfloor>x\<rfloor>"
  have n: "0 < n" "real_of_int n \<le> x" "x < real_of_int n + 1"
    using True unfolding n_def by linarith+
  have b: "2 ^ nat (bitlen n - 1) \<le> n" "n < 2 ^ nat (bitlen n)"
    using bitlen_bounds [OF n(1)] by simp_all
  have b1: "1 \<le> bitlen n"
    using n(1) by (simp add: bitlen_alt_def)
  have e: "binade x = bitlen n - 1"
    using True by (simp add: binade_def n_def)
  have "2 powi (bitlen n - 1) = (2::real) ^ nat (bitlen n - 1)"
    using b1 by (simp add: power_int_def)
  moreover have "(2::real) ^ nat (bitlen n - 1) \<le> real_of_int n"
    using b(1) by (metis of_int_le_iff of_int_numeral of_int_power)
  moreover have "2 powi (bitlen n - 1 + 1) = (2::real) ^ nat (bitlen n)"
    using b1 by (simp add: power_int_def)
  moreover have "real_of_int n + 1 \<le> (2::real) ^ nat (bitlen n)"
  proof -
    have "n + 1 \<le> 2 ^ nat (bitlen n)"
      using b(2) by simp
    then have "real_of_int (n + 1) \<le> real_of_int (2 ^ nat (bitlen n))"
      by (simp only: of_int_le_iff)
    then show ?thesis by simp
  qed
  ultimately show ?thesis
    using n(2,3) unfolding e by linarith
next
  case False
  define m where "m = \<lceil>1 / x\<rceil>"
  have x1: "1 < 1 / x"
    using assms False by simp
  then have m: "1 / x \<le> real_of_int m" "real_of_int m - 1 < 1 / x" "0 < m - 1"
    unfolding m_def by linarith+
  define j where "j = bitlen (m - 1)"
  have b: "2 ^ nat (j - 1) \<le> m - 1" "m - 1 < 2 ^ nat j"
    using bitlen_bounds [OF m(3)] by (simp_all add: j_def)
  have j1: "1 \<le> j"
    using m(3) by (simp add: bitlen_alt_def j_def)
  have e: "binade x = - j"
    using False by (simp add: binade_def m_def j_def)
  have up: "real_of_int m \<le> (2::real) ^ nat j"
  proof -
    have "m \<le> 2 ^ nat j"
      using b(2) by simp
    then have "real_of_int m \<le> real_of_int (2 ^ nat j)"
      by (simp only: of_int_le_iff)
    then show ?thesis by simp
  qed
  have lo: "(2::real) ^ nat (j - 1) \<le> real_of_int m - 1"
  proof -
    have "real_of_int (2 ^ nat (j - 1)) \<le> real_of_int (m - 1)"
      using b(1) by (simp only: of_int_le_iff)
    then show ?thesis by simp
  qed
  have p1: "2 powi (- j) = 1 / (2::real) ^ nat j"
    using j1 by (simp add: power_int_def field_simps)
  have p2: "2 powi (- j + 1) = 1 / (2::real) ^ nat (j - 1)"
  proof (cases "j = 1")
    case True
    then show ?thesis by simp
  next
    case False
    with j1 have "- j + 1 < 0" and "nat (- (- j + 1)) = nat (j - 1)"
      by simp_all
    then show ?thesis
      by (simp add: power_int_def field_simps)
  qed
  have "1 / x \<le> (2::real) ^ nat j"
    using m(1) up by linarith
  then have a: "1 / (2::real) ^ nat j \<le> x"
    using assms by (simp add: field_simps)
  have "(2::real) ^ nat (j - 1) < 1 / x"
    using lo m(2) by linarith
  then have c: "x < 1 / (2::real) ^ nat (j - 1)"
    using assms by (simp add: field_simps)
  show ?thesis
    unfolding e p1 p2 using a c by simp
qed

lemma round_half_even_error: "\<bar>real_of_int (round_half_even y) - y\<bar> \<le> 1 / 2"
  unfolding round_half_even_def Let_def by (auto split: if_splits)

lemma float64_0: "float64 0 = 0"
  by (simp add: float64_def)

lemma float64_error:
  "\<bar>float64 x - x\<bar> * 2 ^ 53 \<le> \<bar>x\<bar>"
proof (cases "x = 0")
  case True
  then show ?thesis by (simp add: float64_def)
next
  case False
  define u :: real where "u = 2 powi (binade \<bar>x\<bar> - 52)"
  have u0: "0 < u"
    by (simp add: u_def)
  have "2 powi binade \<bar>x\<bar> \<le> \<bar>x\<bar>"
    using binade_bounds [of "\<bar>x\<bar>"] False by simp
  moreover have "(2::real) powi binade \<bar>x\<bar> = u * 2 ^ 52"
    unfolding u_def using power_int_add [of "2::real" "binade \<bar>x\<bar> - 52" 52] by simp
  ultimately have ux: "u * 2 ^ 52 \<le> \<bar>x\<bar>"
    by simp
  have f: "float64 x = real_of_int (round_half_even (x / u)) * u"
    using False by (simp add: float64_def u_def Let_def)
  have "float64 x - x = (real_of_int (round_half_even (x / u)) - x / u) * u"
    using u0 by (simp add: f field_simps)
  then have "\<bar>float64 x - x\<bar> = \<bar>real_of_int (round_half_even (x / u)) - x / u\<bar> * u"
    using u0 by (simp add: abs_mult)
  also have "\<dots> \<le> 1 / 2 * u"
    using round_half_even_error [of "x / u"] u0 by (intro mult_right_mono) simp_all
  finally have "\<bar>float64 x - x\<bar> * 2 ^ 53 \<le> 1 / 2 * u * 2 ^ 53"
    by (intro mult_right_mono) simp_all
  also have "\<dots> = u * 2 ^ 52"
    by simp
  finally show ?thesis
    using ux by linarith
qed

lemma float64_pos:
  assumes "0 < x"
  shows "0 < float64 x"
proof (rule ccontr)
  assume "\<not> 0 < float64 x"
  then have "x \<le> \<bar>float64 x - x\<bar>"
    by linarith
  then have "x * 2 ^ 53 \<le> \<bar>float64 x - x\<bar> * 2 ^ 53"
    by (intro mult_right_mono) simp_all
  with float64_error [of x] assms have "x * 2 ^ 53 \<le> x"
    by simp
  with assms show False
    by simp
qed

lemma float64_nonneg: "0 \<le> x \<Longrightarrow> 0 \<le> float64 x"
  using float64_pos [of x] by (cases "x = 0") (simp_all add: float64_0 less_imp_le)

lemma float64_pos_eq:
  assumes "0 < x"
  shows "float64 x = real_of_int (round_half_even (x / 2 powi (binade x - 52))) * 2 powi (binade x - 52)"
  using assms by (simp add: float64_def Let_def)

lemma float64_pos_bounds:
  assumes "0 < x"
  shows "2 powi binade x \<le> float64 x \<and> float64 x \<le> 2 powi (binade x + 1)"
proof -
  define u :: real where "u = 2 powi (binade x - 52)"
  have u0: "0 < u"
    by (simp add: u_def)
  have lo: "(2::real) powi binade x = 2 ^ 52 * u"
    unfolding u_def using power_int_add [of "2::real" "binade x - 52" 52] by simp
  have hi: "(2::real) powi (binade x + 1) = 2 ^ 53 * u"
    unfolding u_def using power_int_add [of "2::real" "binade x - 52" 53]
    by (simp add: add.commute mult.commute)
  have "2 ^ 52 * u \<le> x" and "x < 2 ^ 53 * u"
    using binade_bounds [OF assms] lo hi by simp_all
  then have "real_of_int (2 ^ 52) \<le> x / u" and "x / u \<le> real_of_int (2 ^ 53)"
    using u0 by (simp_all add: field_simps)
  then have "2 ^ 52 \<le> round_half_even (x / u)" and "round_half_even (x / u) \<le> 2 ^ 53"
    using round_half_even_mono [of "real_of_int (2 ^ 52)" "x / u"]
      round_half_even_mono [of "x / u" "real_of_int (2 ^ 53)"]
    by (simp_all only: round_half_even_of_int)
  then have "real_of_int (2 ^ 52) \<le> real_of_int (round_half_even (x / u))"
    and "real_of_int (round_half_even (x / u)) \<le> real_of_int (2 ^ 53)"
    by (simp_all only: of_int_le_iff)
  then have "2 ^ 52 * u \<le> real_of_int (round_half_even (x / u)) * u"
    and "real_of_int (round_half_even (x / u)) * u \<le> 2 ^ 53 * u"
    using u0 by simp_all
  then show ?thesis
    unfolding lo hi float64_pos_eq [OF assms] u_def by simp
qed

lemma binade_mono:
  assumes "0 < x" and "x \<le> y"
  shows "binade x \<le> binade y"
proof (rule ccontr)
  assume "\<not> binade x \<le> binade y"
  then have "binade y + 1 \<le> binade x"
    by simp
  then have "(2::real) powi (binade y + 1) \<le> 2 powi binade x"
    by (intro power_int_increasing) simp_all
  moreover have "y < 2 powi (binade y + 1)" and "2 powi binade x \<le> x"
    using binade_bounds [of y] binade_bounds [of x] assms by simp_all
  ultimately show False
    using assms(2) by linarith
qed

lemma float64_mono:
  assumes "0 \<le> x" and "x \<le> y"
  shows "float64 x \<le> float64 y"
proof (cases "x = 0")
  case True
  with assms show ?thesis
    by (simp add: float64_0 float64_nonneg)
next
  case False
  with assms have x: "0 < x" and y: "0 < y"
    by simp_all
  show ?thesis
  proof (cases "binade x = binade y")
    case True
    have "x / 2 powi (binade y - 52) \<le> y / 2 powi (binade y - 52)"
      using assms(2) by (intro divide_right_mono) simp_all
    then have "round_half_even (x / 2 powi (binade y - 52)) \<le> round_half_even (y / 2 powi (binade y - 52))"
      by (rule round_half_even_mono)
    then have "real_of_int (round_half_even (x / 2 powi (binade y - 52)))
                 \<le> real_of_int (round_half_even (y / 2 powi (binade y - 52)))"
      by (simp only: of_int_le_iff)
    then show ?thesis
      unfolding float64_pos_eq [OF x] float64_pos_eq [OF y] True
      by (intro mult_right_mono) simp_all
  next
    case False
    with binade_mono [OF x assms(2)] have "binade x + 1 \<le> binade y"
      by simp
    then have "(2::real) powi (binade x + 1) \<le> 2 powi binade y"
      by (intro power_int_increasing) simp_all
    with float64_pos_bounds [OF x] float64_pos_bounds [OF y] show ?thesis
      by linarith
  qed
qed

lemma float64_of_int:
  assumes "\<bar>i\<bar> \<le> 2 ^ 53"
  shows "float64 (real_of_int i) = real_of_int i"
proof (cases "i = 0")
  case True
  then show ?thesis by (simp add: float64_0)
next
  case False
  define e where "e = binade \<bar>real_of_int i\<bar> - 52"
  have pos: "0 < \<bar>real_of_int i\<bar>"
    using False by simp
  have "2 powi (e + 52) \<le> \<bar>real_of_int i\<bar>"
    using binade_bounds [OF pos] by (simp add: e_def)
  also have "\<bar>real_of_int i\<bar> \<le> 2 powi 53"
  proof -
    have "real_of_int \<bar>i\<bar> \<le> real_of_int (2 ^ 53)"
      using assms by (simp only: of_int_le_iff)
    then show ?thesis by simp
  qed
  finally have le53: "(2::real) powi (e + 52) \<le> 2 powi 53" .
  have e: "e \<le> 1"
  proof (rule ccontr)
    assume "\<not> e \<le> 1"
    then have "54 \<le> e + 52"
      by simp
    then have "(2::real) powi 54 \<le> 2 powi (e + 52)"
      by (intro power_int_increasing) simp_all
    with le53 show False
      by simp
  qed
  show ?thesis
  proof (cases "e \<le> 0")
    case True
    define k where "k = nat (- e)"
    have u: "(2::real) powi e = 1 / 2 ^ k"
      using True by (cases "e = 0") (simp_all add: power_int_def k_def field_simps)
    have "real_of_int i / (1 / 2 ^ k) = real_of_int (i * 2 ^ k)"
      by simp
    then have "round_half_even (real_of_int i / (1 / 2 ^ k)) = i * 2 ^ k"
      by (simp only: round_half_even_of_int)
    then show ?thesis
      using False by (simp add: float64_def Let_def u flip: e_def)
  next
    case False
    with e have e1: "e = 1"
      by simp
    then have "2 powi 53 \<le> \<bar>real_of_int i\<bar>"
      using binade_bounds [OF pos] by (simp add: e_def)
    with assms have "\<bar>i\<bar> = 2 ^ 53"
    proof -
      assume "2 powi 53 \<le> \<bar>real_of_int i\<bar>"
      then have "real_of_int (2 ^ 53) \<le> real_of_int \<bar>i\<bar>"
        by simp
      then have "2 ^ 53 \<le> \<bar>i\<bar>"
        by (simp only: of_int_le_iff)
      with assms show ?thesis by simp
    qed
    then have "i = 2 ^ 53 \<or> i = - (2 ^ 53)"
      by linarith
    then show ?thesis
      using e1 by (auto simp: float64_def Let_def round_half_even_def simp flip: e_def)
  qed
qed

section \<open>The repaired series is monotone\<close>

lemma mask_cummax_from_Cons:
  assumes "\<bar>x\<bar> \<le> 2 ^ 53"
  shows "mask_series (x # xs) (series_lt (x # xs) (cummax_from m (x # xs))) =
     (if x < m then None else Some (real_of_int x))
     # mask_series xs (series_lt xs (cummax_from (max m x) xs))"
  using assms by (simp add: mask_series_def series_lt_def float64_of_int)

lemma valids_masked_sorted:
  assumes "\<forall>x\<in>set xs. \<bar>x\<bar> \<le> 2 ^ 53"
  shows "sorted (real_of_int m # valids (mask_series xs (series_lt xs (cummax_from m xs))))"
  using assms
proof (induction xs arbitrary: m)
  case Nil
  show ?case by (simp add: mask_series_def series_lt_def)
next
  case (Cons x xs)
  then have x: "\<bar>x\<bar> \<le> 2 ^ 53" and xs: "\<forall>x\<in>set xs. \<bar>x\<bar> \<le> 2 ^ 53"
    by simp_all
  show ?case
  proof (cases "x < m")
    case True
    then have "max m x = m" by simp
    with True Cons.IH [OF xs, of m] show ?thesis
      by (simp add: mask_cummax_from_Cons [OF x] del: cummax_from.simps)
  next
    case False
    then have mx: "max m x = x" by simp
    from False Cons.IH [OF xs, of x] show ?thesis
      by (auto simp: mask_cummax_from_Cons [OF x] mx simp del: cummax_from.simps)
  qed
qed

lemma valids_masked_last:
  assumes "\<forall>x\<in>set xs. \<bar>x\<bar> \<le> 2 ^ 53"
  shows "last (real_of_int m # valids (mask_series xs (series_lt xs (cummax_from m xs))))
     = real_of_int (Max (insert m (set xs)))"
  using assms
proof (induction xs arbitrary: m)
  case Nil
  show ?case by (simp add: mask_series_def series_lt_def)
next
  case (Cons x xs)
  then have x: "\<bar>x\<bar> \<le> 2 ^ 53" and xs: "\<forall>x\<in>set xs. \<bar>x\<bar> \<le> 2 ^ 53"
    by simp_all
  show ?case
  proof (cases "x < m")
    case True
    then have mx: "max m x = m" by simp
    have "Max (insert m (set (x # xs))) = Max (insert m (set xs))"
      using True by (cases "xs = []") (simp_all add: max_def)
    with True Cons.IH [OF xs, of m] show ?thesis
      by (simp add: mask_cummax_from_Cons [OF x] mx del: cummax_from.simps)
  next
    case False
    then have mx: "max m x = x" by simp
    have "Max (insert m (set (x # xs))) = Max (insert x (set xs))"
      using False by (cases "xs = []") (simp_all add: max_def)
    with False Cons.IH [OF xs, of x] show ?thesis
      by (simp add: mask_cummax_from_Cons [OF x] mx del: cummax_from.simps)
  qed
qed

lemma next_valid_valids:
  "valids ys = (case next_valid ys of None \<Rightarrow> [] | Some (n, b) \<Rightarrow> b # valids (drop (Suc n) ys))"
  by (induction ys rule: next_valid.induct) (auto split: option.splits)

lemma interp_value_0: "interp_value a 0 ys = a"
  by (simp add: interp_value_def split: option.splits)

lemma interp_value_Some_le:
  assumes "a \<le> v"
  shows "interp_value a k (Some v # ys) \<le> v"
proof -
  have "(v - a) * real k \<le> (v - a) * real (k + 1)"
    using assms by (intro mult_left_mono) simp_all
  then have "(v - a) * real k / real (k + 1) \<le> v - a"
    by (simp add: pos_divide_le_eq)
  then show ?thesis
    by (simp add: interp_value_def)
qed

lemma interp_value_None_le:
  assumes "sorted (a # valids ys)"
  shows "interp_value a k (None # ys) \<le> interp_value a (Suc k) ys"
proof (cases "next_valid ys")
  case None
  then show ?thesis by (simp add: interp_value_def)
next
  case (Some p)
  obtain n b where p: "p = (n, b)" by (cases p)
  have "a \<le> b"
    using assms Some p next_valid_valids [of ys] by simp
  then have "(b - a) * real k \<le> (b - a) * real (Suc k)"
    by (intro mult_left_mono) simp_all
  then have "(b - a) * real k / real (k + n + 2) \<le> (b - a) * real (Suc k) / real (k + n + 2)"
    by (intro divide_right_mono) simp_all
  then show ?thesis
    using Some p by (simp add: interp_value_def add.commute)
qed

lemma interp_from_sorted:
  "sorted (a # valids ys) \<Longrightarrow> sorted (interp_value a k ys # interp_from a k ys)"
proof (induction a k ys rule: interp_from.induct)
  case (1 a k)
  show ?case by simp
next
  case (2 a k v ys)
  from "2.prems" have av: "a \<le> v" and "sorted (v # valids ys)" by simp_all
  then have "sorted (v # interp_from v 0 ys)"
    using "2.IH" by (simp add: interp_value_0)
  with interp_value_Some_le [OF av, of k ys] show ?case
    by fastforce
next
  case (3 a k ys)
  from "3.prems" have s: "sorted (a # valids ys)" by simp
  have "sorted (interp_value a (Suc k) ys # interp_from a (Suc k) ys)"
    using "3.IH" [OF s] .
  with interp_value_None_le [OF s, of k] show ?case
    by fastforce
qed

lemma interp_from_length: "length (interp_from a k ys) = length ys"
  by (induction a k ys rule: interp_from.induct) simp_all

lemma interp_from_Nil_iff: "interp_from a k ys = [] \<longleftrightarrow> ys = []"
  using interp_from_length [of a k ys] by auto

lemma interp_from_last:
  "ys \<noteq> [] \<Longrightarrow> last (interp_from a k ys) = last (a # valids ys)"
proof (induction a k ys rule: interp_from.induct)
  case (1 a k)
  then show ?case by simp
next
  case (2 a k v ys)
  then show ?case
    by (cases "ys = []") (simp_all add: interp_from_Nil_iff)
next
  case (3 a k ys)
  then show ?case
    by (cases "ys = []") (simp_all add: interp_from_Nil_iff interp_value_def)
qed

lemma cummax_from_length: "length (cummax_from m xs) = length xs"
  by (induction xs arbitrary: m) simp_all

lemma those_map_Some: "those (map Some zs) = Some zs"
  by (induction zs) simp_all

lemma cummax_from_sorted: "sorted (m # xs) \<Longrightarrow> cummax_from m xs = xs"
  by (induction xs arbitrary: m) (auto simp: max_def)

lemma recheck_sorted:
  assumes "sorted ys"
  shows "True \<notin> set (series_lt ys (cummax ys))"
proof (cases ys)
  case Nil
  then show ?thesis by (simp add: series_lt_def cummax_def)
next
  case (Cons y r)
  with assms have "cummax ys = ys"
    by (simp add: cummax_def cummax_from_sorted)
  then show ?thesis
    by (auto simp: series_lt_def in_set_zip)
qed

lemma world_deaths_fixed_Cons:
  assumes "\<bar>x\<bar> \<le> 2 ^ 53"
  shows "world_deaths_fixed (x # r) =
     Inr (map round_half_even
       (real_of_int x # interp_from (real_of_int x) 0
          (mask_series r (series_lt r (cummax_from x r)))))"
proof -
  have "mask_series (x # r) (series_lt (x # r) (cummax (x # r)))
          = Some (real_of_int x) # mask_series r (series_lt r (cummax_from x r))"
    using assms by (simp add: cummax_def mask_series_def series_lt_def float64_of_int)
  moreover have "those (map (map_option round0) (map Some zs)) = Some (map round0 zs)" for zs
    using those_map_Some [of "map round0 zs"] by (simp add: comp_def)
  moreover have "map trunc (map round0 zs) = map round_half_even zs" for zs
    by (simp add: round0_def trunc_of_int)
  ultimately show ?thesis
    by (simp add: world_deaths_fixed_def round_series_def astype_int64_def round0_def trunc_of_int)
qed

text \<open>
  Claim C1, as the code has it. For every input series of counts within \<open>2 ^ 53\<close> (the range
  in which the float64 column of \<^verbatim>\<open>mask\<close> holds every count exactly) the repair returns a
  series of the same length that is monotonically non-decreasing (the notebook's check after
  the repair, the mask computed again, flags nothing), and for a non-empty input its last
  value is the largest value of the input (the running maximum at the last date). That is the
  input's last value only when the input does not end below an earlier value: a last value
  under the running maximum is masked like any other and filled with the last valid value.
\<close>

theorem world_deaths_fixed_monotone:
  assumes "\<forall>x\<in>set xs. \<bar>x\<bar> \<le> 2 ^ 53"
  shows "\<exists>ys. world_deaths_fixed xs = Inr ys \<and> length ys = length xs \<and> sorted ys \<and>
        True \<notin> set (series_lt ys (cummax ys)) \<and>
        (xs \<noteq> [] \<longrightarrow> last ys = Max (set xs))"
proof (cases xs)
  case Nil
  then show ?thesis
    by (simp add: world_deaths_fixed_def cummax_def series_lt_def mask_series_def round_series_def
        astype_int64_def)
next
  case (Cons x r)
  define ms where "ms = mask_series r (series_lt r (cummax_from x r))"
  define zs where "zs = real_of_int x # interp_from (real_of_int x) 0 ms"
  have x: "\<bar>x\<bar> \<le> 2 ^ 53" and r: "\<forall>x\<in>set r. \<bar>x\<bar> \<le> 2 ^ 53"
    using assms Cons by simp_all
  have res: "world_deaths_fixed xs = Inr (map round_half_even zs)"
    by (simp add: Cons world_deaths_fixed_Cons [OF x] zs_def ms_def)
  have len_ms: "length ms = length r"
    by (simp add: ms_def mask_series_def series_lt_def cummax_from_length)
  have vs: "sorted (real_of_int x # valids ms)"
    unfolding ms_def using r by (rule valids_masked_sorted)
  have "sorted zs"
    using interp_from_sorted [OF vs, of 0] by (simp add: zs_def interp_value_0)
  then have sorted: "sorted (map round_half_even zs)"
    by (simp add: sorted_map sorted_wrt_mono_rel [of _ "(\<le>)"] round_half_even_mono)
  have "last zs = last (real_of_int x # valids ms)"
    using interp_from_last [of ms "real_of_int x" 0]
    by (cases "ms = []") (simp_all add: zs_def interp_from_Nil_iff)
  also have "\<dots> = real_of_int (Max (set xs))"
    unfolding ms_def Cons using valids_masked_last [OF r, of x] by simp
  finally have lz: "last zs = real_of_int (Max (set xs))" .
  have "zs \<noteq> []"
    by (simp add: zs_def)
  then have "last (map round_half_even zs) = round_half_even (last zs)"
    by (rule last_map)
  then have "last (map round_half_even zs) = Max (set xs)"
    by (simp only: lz round_half_even_of_int)
  with res sorted recheck_sorted [OF sorted] show ?thesis
    by (simp add: zs_def Cons interp_from_length len_ms)
qed

theorem world_deaths_fixed_monotone_witness:
  "world_deaths_fixed [1, 5, 3, 4, 2, 10, 7] = Inr [1, 5, 6, 8, 9, 10, 10] \<and>
   sorted [1, 5, 6, 8, 9, 10, 10 :: int] \<and>
   last [1, 5, 6, 8, 9, 10, 10] = Max (set [1, 5, 3, 4, 2, 10, 7 :: int])"
proof -
  have "world_deaths_fixed [1, 5, 3, 4, 2, 10, 7] = Inr [1, 5, 6, 8, 9, 10, 10]"
    by (simp add: world_deaths_fixed_def cummax_def series_lt_def mask_series_def round_series_def
        astype_int64_def round0_def round_half_even_def trunc_def interp_value_def
        float64_of_int [of 1, simplified] float64_of_int [of 5, simplified]
        float64_of_int [of 10, simplified])
  with world_deaths_fixed_monotone [of "[1, 5, 3, 4, 2, 10, 7]"] show ?thesis
    by simp
qed

text \<open>
  Claim C1 as stated fails on its second half: the series 5, 3 is repaired to 5, 5, whose last
  value is not the input's last value 3.
\<close>

theorem world_deaths_fixed_last_counterexample:
  "world_deaths_fixed [5, 3] = Inr [5, 5] \<and> last [5, 5] \<noteq> last [5, 3 :: int]"
  by (simp add: world_deaths_fixed_def cummax_def series_lt_def mask_series_def round_series_def
      astype_int64_def round0_def round_half_even_def trunc_def interp_value_def
      float64_of_int [of 5, simplified])

text \<open>
  Above \<open>2 ^ 53\<close> the float64 column does not hold every count: \<open>2 ^ 53 + 1\<close> becomes
  \<open>2 ^ 53\<close>, and the repaired series ends below the largest value of the input.
\<close>

lemma world_deaths_fixed_above_2_53:
  "world_deaths_fixed [2 ^ 53 + 1, 5] = Inr [2 ^ 53, 2 ^ 53]"
  by code_simp

section \<open>The smoothed series\<close>

lemma cumsum_from_length: "length (cumsum_from acc xs) = length xs"
  by (induction xs arbitrary: acc) simp_all

lemma sorted_map_mono:
  assumes "sorted xs" and "\<And>x y. x \<le> y \<Longrightarrow> f x \<le> f y"
  shows "sorted (map f xs)"
  using assms by (induction xs) auto

lemma last_drop_less: "k < length xs \<Longrightarrow> drop k xs \<noteq> [] \<and> last (drop k xs) = last xs"
  by simp

lemma cumsum_from_Nil_iff: "cumsum_from acc xs = [] \<longleftrightarrow> xs = []"
  using cumsum_from_length [of acc xs] by auto

lemma cumsum_from_last:
  "xs \<noteq> [] \<Longrightarrow> last (cumsum_from acc xs) = acc + sum_list xs"
proof (induction xs arbitrary: acc)
  case Nil
  then show ?case by simp
next
  case (Cons x xs)
  then show ?case
    by (cases "xs = []") (simp_all add: add.assoc cumsum_from_Nil_iff)
qed

lemma cumsum_from_sorted:
  "\<forall>x\<in>set xs. 0 \<le> x \<Longrightarrow> sorted (acc # cumsum_from acc xs)"
proof (induction xs arbitrary: acc)
  case Nil
  show ?case by simp
next
  case (Cons x xs)
  then have "sorted ((acc + x) # cumsum_from (acc + x) xs)" and "acc \<le> acc + x"
    by simp_all
  then show ?case
    by fastforce
qed

lemma cumsum_from_diffs: "cumsum_from x (diffs (x # r)) = r"
  by (induction r arbitrary: x) simp_all

lemma cumsum_clip0_sorted: "sorted (0 # cumsum (clip0 ys))"
  unfolding cumsum_def by (rule cumsum_from_sorted) (simp add: clip0_def)

lemma last_zero_date_bound:
  assumes "s \<noteq> []" and "hd s = 0"
  shows "last_zero_date s < length s \<and> s ! last_zero_date s = 0"
proof -
  let ?zs = "filter (\<lambda>i. s ! i = 0) [0..<length s]"
  have "0 \<in> set ?zs"
    using assms by (cases s) simp_all
  then have "?zs \<noteq> []"
    by (metis empty_iff empty_set)
  then have "last ?zs \<in> set ?zs"
    by (rule last_in_set)
  then show ?thesis
    by (simp add: last_zero_date_def)
qed

lemma smooth_daily_last:
  assumes "smooth_daily cm s0 = Inr (s, s_daily)"
  shows "s \<noteq> [] \<and> last s = last (take (Suc (last_date cm)) s0)"
proof -
  let ?t = "take (Suc (last_date cm)) s0"
  from assms obtain v0 r where t: "?t = v0 # r"
    by (cases ?t) (simp_all add: smooth_daily_def)
  show ?thesis
  proof (cases "v0 = 0")
    case True
    have "?t \<noteq> []" and "hd ?t = 0"
      using t True by simp_all
    then have "last_zero_date ?t < length ?t"
      using last_zero_date_bound [of ?t] by blast
    then have "drop (last_zero_date ?t) ?t \<noteq> [] \<and> last (drop (last_zero_date ?t) ?t) = last ?t"
      by (rule last_drop_less)
    moreover have "s = drop (last_zero_date ?t) ?t"
      using assms t True by (simp add: smooth_daily_def Let_def)
    ultimately show ?thesis
      by simp
  next
    case False
    then have "s = ?t"
      using assms t by (simp add: smooth_daily_def Let_def)
    then show ?thesis
      using t by simp
  qed
qed

lemma sorted_map_float64_scale:
  assumes "sorted xs" and "\<forall>v\<in>set xs. 0 \<le> v" and "0 \<le> f"
  shows "sorted (map (\<lambda>v. float64 (v * f)) xs)"
  using assms(1,2)
proof (induction xs)
  case Nil
  show ?case by simp
next
  case (Cons x xs)
  have "float64 (x * f) \<le> float64 (y * f)" if "y \<in> set xs" for y
  proof (rule float64_mono)
    show "0 \<le> x * f"
      using Cons.prems(2) assms(3) by simp
    show "x * f \<le> y * f"
      using Cons.prems(1) that assms(3) by (intro mult_right_mono) simp_all
  qed
  with Cons show ?case
    by simp
qed

lemma smooth_lowess_path:
  assumes "smooth_daily cm s0 = Inr (s, s_daily)"
      and "MIN_OBS \<le> length s_daily"
      and "length (lowess (real (n_smooth cm) / real (length s_daily)) s_daily) = length s_daily"
      and "last (lowess_cumulative lowess cm s_daily) \<noteq> 0"
  shows "smooth lowess cm s0 =
           Inr (map (\<lambda>v. float64 (v * float64 (real_of_int (last s) /
                                  last (lowess_cumulative lowess cm s_daily))))
                  (lowess_cumulative lowess cm s_daily))"
  using assms by (simp add: smooth_def Let_def)

lemma lowess_cumulative_length:
  "length (lowess_cumulative lowess cm y) = length (lowess (real (n_smooth cm) / real (length y)) y)"
  by (simp add: lowess_cumulative_def cumsum_def clip0_def cumsum_from_length)

lemma float64_rescale_error:
  assumes "c \<noteq> 0"
  shows "\<bar>float64 (c * float64 (a / c)) - a\<bar> * 2 ^ 51 \<le> \<bar>a\<bar>"
proof -
  define q where "q = float64 (a / c)"
  have "c * q - a = c * (q - a / c)"
    using assms by (simp add: right_diff_distrib)
  then have "\<bar>c * q - a\<bar> = \<bar>c\<bar> * \<bar>q - a / c\<bar>"
    by (simp only: abs_mult)
  then have "\<bar>c * q - a\<bar> * 2 ^ 53 = \<bar>c\<bar> * (\<bar>q - a / c\<bar> * 2 ^ 53)"
    by simp
  also have "\<dots> \<le> \<bar>c\<bar> * \<bar>a / c\<bar>"
    unfolding q_def by (intro mult_left_mono float64_error) simp
  also have "\<dots> = \<bar>a\<bar>"
    using assms by (simp add: abs_divide)
  finally have e1: "\<bar>c * q - a\<bar> * 2 ^ 53 \<le> \<bar>a\<bar>" .
  have e2: "\<bar>float64 (c * q) - c * q\<bar> * 2 ^ 53 \<le> \<bar>c * q\<bar>"
    by (rule float64_error)
  define d1 where "d1 = \<bar>c * q - a\<bar>"
  define d2 where "d2 = \<bar>float64 (c * q) - c * q\<bar>"
  have "\<bar>c * q\<bar> \<le> \<bar>a\<bar> + d1" and "\<bar>float64 (c * q) - a\<bar> \<le> d2 + d1" and "0 \<le> d1"
    unfolding d1_def d2_def by linarith+
  moreover have "d1 * 2 ^ 53 \<le> \<bar>a\<bar>" and "d2 * 2 ^ 53 \<le> \<bar>c * q\<bar>"
    using e1 e2 by (simp_all add: d1_def d2_def)
  ultimately have "\<bar>float64 (c * q) - a\<bar> * 2 ^ 51 \<le> \<bar>a\<bar>"
    by simp
  then show ?thesis
    unfolding q_def .
qed

text \<open>
  Claim C2, as the code has it. When the daily deltas number at least \<open>MIN_OBS\<close> and the
  smoothed cumulative total is not zero (the smoother returning one value per delta), the last
  value of the series that \<open>smooth\<close> returns is the float64 product
  \<open>last_smoothed * (last_actual / last_smoothed)\<close>, the quotient and the product each
  rounded. It is the last actual cumulative value up to these two roundings: the two differ
  by at most \<open>2 ^ - 51\<close> of the last actual value.
\<close>

theorem smooth_anchored_float64:
  assumes "smooth_daily cm s0 = Inr (s, s_daily)"
      and "MIN_OBS \<le> length s_daily"
      and "length (lowess (real (n_smooth cm) / real (length s_daily)) s_daily) = length s_daily"
      and "last (lowess_cumulative lowess cm s_daily) \<noteq> 0"
  shows "\<exists>ys. smooth lowess cm s0 = Inr ys \<and> length ys = length s_daily \<and>
           last ys = float64 (last (lowess_cumulative lowess cm s_daily) *
                       float64 (real_of_int (last (take (Suc (last_date cm)) s0)) /
                                  last (lowess_cumulative lowess cm s_daily))) \<and>
           \<bar>last ys - real_of_int (last (take (Suc (last_date cm)) s0))\<bar> * 2 ^ 51
             \<le> \<bar>real_of_int (last (take (Suc (last_date cm)) s0))\<bar>"
proof -
  let ?c = "lowess_cumulative lowess cm s_daily"
  let ?a = "real_of_int (last (take (Suc (last_date cm)) s0))"
  let ?ys = "map (\<lambda>v. float64 (v * float64 (?a / last ?c))) ?c"
  have len: "length ?c = length s_daily"
    using assms(3) by (simp add: lowess_cumulative_length)
  with assms(2) have ne: "?c \<noteq> []"
    by (auto simp: MIN_OBS_def)
  have ys: "smooth lowess cm s0 = Inr ?ys"
    using smooth_lowess_path [OF assms] smooth_daily_last [OF assms(1)] by simp
  have l: "last ?ys = float64 (last ?c * float64 (?a / last ?c))"
    using ne by (simp add: last_map)
  have "\<bar>last ?ys - ?a\<bar> * 2 ^ 51 \<le> \<bar>?a\<bar>"
    unfolding l using assms(4) by (rule float64_rescale_error)
  with ys l len show ?thesis
    by (intro exI [of _ ?ys]) simp
qed

text \<open>
  Claim C10. On the LOWESS path (at least \<open>MIN_OBS\<close> deltas, smoothed total not zero) the
  returned series is monotonically non-decreasing: the smoothed deltas are clipped at zero, so
  their running sum does not decrease and its last value is positive, and the last actual
  value of a cumulative count is not negative, so the scale factor is not negative either.
\<close>

theorem smooth_lowess_monotone:
  assumes "smooth_daily cm s0 = Inr (s, s_daily)"
      and "MIN_OBS \<le> length s_daily"
      and "length (lowess (real (n_smooth cm) / real (length s_daily)) s_daily) = length s_daily"
      and "last (lowess_cumulative lowess cm s_daily) \<noteq> 0"
      and "0 \<le> last (take (Suc (last_date cm)) s0)"
  shows "\<exists>ys. smooth lowess cm s0 = Inr ys \<and> sorted ys"
proof -
  let ?c = "lowess_cumulative lowess cm s_daily"
  have len: "length ?c = length s_daily"
    using assms(3) by (simp add: lowess_cumulative_length)
  with assms(2) have ne: "?c \<noteq> []"
    by (auto simp: MIN_OBS_def)
  have s0c: "sorted (0 # ?c)"
    unfolding lowess_cumulative_def by (rule cumsum_clip0_sorted)
  then have "0 \<le> last ?c"
    using ne by simp
  with assms(4) have pos: "0 < last ?c"
    by simp
  have "0 \<le> real_of_int (last s)"
    using smooth_daily_last [OF assms(1)] assms(5) by simp
  with pos have "0 \<le> real_of_int (last s) / last ?c"
    by simp
  then have f: "0 \<le> float64 (real_of_int (last s) / last ?c)"
    by (rule float64_nonneg)
  from s0c have "sorted ?c" and c0: "\<forall>v\<in>set ?c. 0 \<le> v"
    by simp_all
  then have "sorted (map (\<lambda>v. float64 (v * float64 (real_of_int (last s) / last ?c))) ?c)"
    using f by (intro sorted_map_float64_scale)
  then show ?thesis
    using smooth_lowess_path [OF assms(1-4)] by simp
qed

lemma smooth_daily_example:
  "smooth_daily \<lparr>last_date = 15, n_train = 60, n_smooth = 15, n_pred = 30, L_n_min = 5, L_n_max = 50\<rparr>
      [0, 1, 2, 3, 4, 5, 6, 7, 8, 9, 10, 11, 12, 13, 14, 15]
    = Inr ([0, 1, 2, 3, 4, 5, 6, 7, 8, 9, 10, 11, 12, 13, 14, 15],
           [1, 1, 1, 1, 1, 1, 1, 1, 1, 1, 1, 1, 1, 1, 1])"
  by (simp add: smooth_daily_def last_zero_date_def diff_def dropna_def)

lemma lowess_cumulative_example:
  "lowess_cumulative (\<lambda>frac y. map (\<lambda>v. v / 2) y)
      \<lparr>last_date = 15, n_train = 60, n_smooth = 15, n_pred = 30, L_n_min = 5, L_n_max = 50\<rparr>
      [1, 1, 1, 1, 1, 1, 1, 1, 1, 1, 1, 1, 1, 1, 1]
    = [1 / 2, 1, 3 / 2, 2, 5 / 2, 3, 7 / 2, 4, 9 / 2, 5, 11 / 2, 6, 13 / 2, 7, 15 / 2]"
  by (simp add: lowess_cumulative_def cumsum_def clip0_def)

theorem smooth_anchored_float64_witness:
  "\<exists>ys. smooth (\<lambda>frac y. map (\<lambda>v. v / 2) y)
          \<lparr>last_date = 15, n_train = 60, n_smooth = 15, n_pred = 30, L_n_min = 5, L_n_max = 50\<rparr>
          [0, 1, 2, 3, 4, 5, 6, 7, 8, 9, 10, 11, 12, 13, 14, 15] = Inr ys \<and>
        \<bar>last ys - 15\<bar> * 2 ^ 51 \<le> 15"
  using smooth_anchored_float64 [OF smooth_daily_example, of "\<lambda>frac y. map (\<lambda>v. v / 2) y"]
  by (auto simp: lowess_cumulative_example MIN_OBS_def)

lemma float64_rescale_example: "float64 (45 * float64 (26 / 45)) = 26 - 1 / 2 ^ 48"
  by code_simp

lemma smooth_daily_jump:
  "smooth_daily \<lparr>last_date = 15, n_train = 60, n_smooth = 15, n_pred = 30, L_n_min = 5, L_n_max = 50\<rparr>
      [0, 1, 2, 3, 4, 5, 6, 7, 8, 9, 10, 11, 12, 13, 14, 26]
    = Inr ([0, 1, 2, 3, 4, 5, 6, 7, 8, 9, 10, 11, 12, 13, 14, 26],
           [1, 1, 1, 1, 1, 1, 1, 1, 1, 1, 1, 1, 1, 1, 12])"
  by (simp add: smooth_daily_def last_zero_date_def diff_def dropna_def)

lemma lowess_cumulative_flat:
  "lowess_cumulative (\<lambda>frac y. replicate (length y) 3)
      \<lparr>last_date = 15, n_train = 60, n_smooth = 15, n_pred = 30, L_n_min = 5, L_n_max = 50\<rparr>
      [1, 1, 1, 1, 1, 1, 1, 1, 1, 1, 1, 1, 1, 1, 12]
    = [3, 6, 9, 12, 15, 18, 21, 24, 27, 30, 33, 36, 39, 42, 45]"
  by (simp add: lowess_cumulative_def cumsum_def clip0_def eval_nat_numeral)

text \<open>
  The last value is not always the last actual value: with a last actual value of 26 and a
  smoothed total of 45 (fifteen smoothed deltas of 3), the float64 quotient \<open>26 / 45\<close> times
  45 is \<open>25.999999999999996\<close>.
\<close>

theorem smooth_anchored_counterexample:
  "map_sum id last
     (smooth (\<lambda>frac y. replicate (length y) 3)
        \<lparr>last_date = 15, n_train = 60, n_smooth = 15, n_pred = 30, L_n_min = 5, L_n_max = 50\<rparr>
        [0, 1, 2, 3, 4, 5, 6, 7, 8, 9, 10, 11, 12, 13, 14, 26]) = Inr (26 - 1 / 2 ^ 48) \<and>
   last [0, 1, 2, 3, 4, 5, 6, 7, 8, 9, 10, 11, 12, 13, 14, 26 :: int] = 26 \<and>
   26 - 1 / 2 ^ 48 \<noteq> (26 :: real)"
  using smooth_lowess_path [OF smooth_daily_jump, of "\<lambda>frac y. replicate (length y) 3"]
  by (simp add: lowess_cumulative_flat MIN_OBS_def float64_rescale_example)

theorem smooth_lowess_monotone_witness:
  "\<exists>ys. smooth (\<lambda>frac y. map (\<lambda>v. v / 2) y)
          \<lparr>last_date = 15, n_train = 60, n_smooth = 15, n_pred = 30, L_n_min = 5, L_n_max = 50\<rparr>
          [0, 1, 2, 3, 4, 5, 6, 7, 8, 9, 10, 11, 12, 13, 14, 15] = Inr ys \<and> sorted ys"
  using smooth_lowess_monotone [OF smooth_daily_example, of "\<lambda>frac y. map (\<lambda>v. v / 2) y"]
  by (simp add: lowess_cumulative_example MIN_OBS_def)

section \<open>Areas with too little history\<close>


lemma valids_map_Some: "valids (map Some xs) = xs"
  by (induction xs) simp_all

lemma smooth_daily_Cons:
  assumes "take (Suc (last_date cm)) s0 = v0 # r"
  shows "smooth_daily cm s0 =
           (if v0 = 0
            then Inr (drop (last_zero_date (v0 # r)) (v0 # r),
                      dropna (diff (map real_of_int (drop (last_zero_date (v0 # r)) (v0 # r)))))
            else Inr (v0 # r, fillna (real_of_int v0) (diff (map real_of_int (v0 # r)))))"
  by (simp add: smooth_daily_def Let_def assms)

lemma smooth_daily_cumsum:
  assumes "smooth_daily cm s0 = Inr (s, s_daily)"
  shows "cumsum s_daily = map real_of_int (if hd s = 0 then tl s else s)"
proof -
  let ?t = "take (Suc (last_date cm)) s0"
  from assms obtain v0 r where t: "?t = v0 # r"
    by (cases ?t) (simp_all add: smooth_daily_def)
  note sd = assms [unfolded smooth_daily_Cons [OF t]]
  show ?thesis
  proof (cases "v0 = 0")
    case True
    let ?k = "last_zero_date (v0 # r)"
    have k: "?k < length (v0 # r)" "(v0 # r) ! ?k = 0"
      using last_zero_date_bound [of "v0 # r"] True by simp_all
    have s: "s = drop ?k (v0 # r)" and d: "s_daily = dropna (diff (map real_of_int s))"
      using sd True by auto
    from k obtain r' where s': "s = 0 # r'"
      unfolding s by (metis Cons_nth_drop_Suc)
    show ?thesis
      unfolding d s' by (simp add: diff_def dropna_def cumsum_def valids_map_Some cumsum_from_diffs)
  next
    case False
    then have s: "s = v0 # r" and d: "s_daily = fillna (real_of_int v0) (diff (map real_of_int s))"
      using sd by auto
    show ?thesis
      unfolding d s using False
      by (simp add: diff_def fillna_def cumsum_def comp_def cumsum_from_diffs)
  qed
qed






section \<open>The forecast on a literal example\<close>

text \<open>
  Claim C7. With a last actual cumulative value of 1000 and a curve whose raw daily deltas are
  12.4, 8.9 and 15.2, the forecast of \<open>run\<close> (round each delta, cumulative sum, add the last
  actual value, cast to int) is the daily series 12, 9, 15 and the cumulative series
  1012, 1021, 1036.
\<close>

theorem pred_tables_literal:
  assumes "get_pred_daily model cm n ps = [124 / 10, 89 / 10, 152 / 10]"
      and "last_date cm < length s"
      and "s ! last_date cm = 1000"
  shows "pred_tables cm s (map round0 (get_pred_daily model cm n ps))
           = Inr ([12, 9, 15], [1012, 1021, 1036])"
  using assms
  by (simp add: pred_tables_def get_pred_cumulative_def cumsum_def round0_def
      round_half_even_def trunc_def)

theorem pred_tables_literal_witness:
  "pred_tables \<lparr>last_date = 1, n_train = 60, n_smooth = 15, n_pred = 3, L_n_min = 5, L_n_max = 50\<rparr>
     [990, 1000]
     (map round0
        (get_pred_daily
           (\<lambda>x ps. if x = 14 then 0 else if x = 15 then 124 / 10 else if x = 16 then 213 / 10 else 365 / 10)
           \<lparr>last_date = 1, n_train = 60, n_smooth = 15, n_pred = 3, L_n_min = 5, L_n_max = 50\<rparr>
           15 (0, 0, 0, 0, 0)))
     = Inr ([12, 9, 15], [1012, 1021, 1036])"
proof -
  have "get_pred_daily
           (\<lambda>x ps. if x = 14 then 0 else if x = 15 then 124 / 10 else if x = 16 then 213 / 10 else 365 / 10)
           \<lparr>last_date = 1, n_train = 60, n_smooth = 15, n_pred = 3, L_n_min = 5, L_n_max = 50\<rparr>
           15 (0, 0, 0, 0, 0) = [124 / 10, 89 / 10, 152 / 10]"
    by (simp add: get_pred_daily_def arange_def upt_rec)
  from pred_tables_literal [OF this, of "[990, 1000]"] show ?thesis
    by simp
qed

section \<open>The smoothed series of repaired data\<close>

text \<open>
  The series that \<open>run\<close> reads are the repaired ones: cumulative counts that do not
  decrease, none of them negative. On such a series the smoothed series does not decrease
  either and has no negative value, and its last value is positive; so has every training
  series of two values or more, which is the end of the smoothed series.
\<close>

lemma sorted_le_last:
  fixes xs :: "'a::linorder list"
  assumes "sorted xs" and "x \<in> set xs"
  shows "x \<le> last xs"
proof -
  from assms(2) obtain i where i: "i < length xs" "xs ! i = x"
    by (auto simp: in_set_conv_nth)
  then have "xs \<noteq> []"
    by auto
  then have "last xs = xs ! (length xs - 1)"
    by (rule last_conv_nth)
  moreover have "xs ! i \<le> xs ! (length xs - 1)"
    using assms(1) i(1) by (intro sorted_nth_mono) simp_all
  ultimately show ?thesis
    using i(2) by simp
qed

lemma last_zero_date_after:
  assumes "last_zero_date s < i" and "i < length s"
  shows "s ! i \<noteq> 0"
proof
  assume z: "s ! i = 0"
  let ?zs = "filter (\<lambda>i. s ! i = 0) [0..<length s]"
  have "i \<in> set ?zs"
    using z assms(2) by simp
  moreover have "sorted ?zs"
    by (simp add: sorted_wrt_filter)
  ultimately have "i \<le> last ?zs"
    by (intro sorted_le_last)
  with assms(1) show False
    by (simp add: last_zero_date_def)
qed

lemma after_last_zero_positive:
  assumes "\<forall>x\<in>set t. (0::int) \<le> x" and "x \<in> set (drop (Suc (last_zero_date t)) t)"
  shows "0 < x"
proof -
  let ?k = "last_zero_date t"
  from assms(2) obtain j where j: "j < length (drop (Suc ?k) t)" "drop (Suc ?k) t ! j = x"
    by (auto simp: in_set_conv_nth)
  then have i: "Suc ?k + j < length t" and x: "t ! (Suc ?k + j) = x"
    by simp_all
  have "t ! (Suc ?k + j) \<noteq> 0"
    using i by (intro last_zero_date_after) simp_all
  moreover have "0 \<le> t ! (Suc ?k + j)"
    using assms(1) i by (meson nth_mem)
  ultimately show ?thesis
    using x by simp
qed

lemma smooth_daily_usable:
  assumes "sorted s0" and "\<forall>x\<in>set s0. 0 \<le> x"
      and "smooth_daily cm s0 = Inr (s, s_daily)"
  shows "sorted (if hd s = 0 then tl s else s) \<and> (\<forall>x\<in>set (if hd s = 0 then tl s else s). 0 < x)"
proof -
  let ?t = "take (Suc (last_date cm)) s0"
  from assms(3) obtain v0 r where t: "?t = v0 # r"
    by (cases ?t) (simp_all add: smooth_daily_def)
  have st: "sorted ?t"
    using assms(1) by (rule sorted_wrt_take)
  have nt: "\<forall>x\<in>set ?t. 0 \<le> x"
    using assms(2) by (meson in_set_takeD)
  note sd = assms(3) [unfolded smooth_daily_Cons [OF t]]
  show ?thesis
  proof (cases "v0 = 0")
    case True
    let ?k = "last_zero_date ?t"
    have k: "?k < length ?t" "?t ! ?k = 0"
      using last_zero_date_bound [of ?t] True t by simp_all
    have s: "s = drop ?k ?t"
      using sd True t by auto
    then have hd: "hd s = 0"
      using k by (simp add: hd_drop_conv_nth)
    have tl: "tl s = drop (Suc ?k) ?t"
      unfolding s by (simp add: drop_Suc tl_drop)
    have "sorted (tl s)"
      unfolding tl using st by (rule sorted_wrt_drop)
    moreover have "0 < x" if "x \<in> set (tl s)" for x
      using that nt unfolding tl by (rule after_last_zero_positive [rotated])
    ultimately show ?thesis
      using hd by simp
  next
    case False
    then have s: "s = ?t"
      using sd t by auto
    have "0 < v0"
      using False nt t by (metis list.set_intros(1) order_le_less)
    moreover have "\<forall>x\<in>set r. v0 \<le> x"
      using st t by simp
    ultimately have "\<forall>x\<in>set ?t. 0 < x"
      unfolding t by auto
    then show ?thesis
      using False st s t by simp
  qed
qed

lemma sorted_positive_reals:
  assumes "sorted u" and "\<forall>x\<in>set u. 0 < x"
  shows "sorted (map real_of_int u) \<and> (\<forall>x\<in>set (map real_of_int u). 0 < x)"
  using assms by (auto intro!: sorted_map_mono)

lemma positive_last:
  fixes xs :: "real list"
  assumes "\<forall>x\<in>set xs. 0 < x"
  shows "(\<forall>x\<in>set xs. 0 \<le> x) \<and> (xs \<noteq> [] \<longrightarrow> 0 < last xs)"
  using assms by (auto simp: less_imp_le)

lemma smooth_repaired:
  assumes "sorted s0" and "\<forall>x\<in>set s0. 0 \<le> x"
      and "smooth lowess cm s0 = Inr sm"
  shows "sorted sm \<and> (\<forall>x\<in>set sm. 0 \<le> x) \<and> (sm \<noteq> [] \<longrightarrow> 0 < last sm)"
proof -
  from assms(3) obtain s s_daily where sd: "smooth_daily cm s0 = Inr (s, s_daily)"
    by (cases "smooth_daily cm s0") (auto simp: smooth_def)
  let ?u = "if hd s = 0 then tl s else s"
  have u: "sorted ?u" "\<forall>x\<in>set ?u. 0 < x"
    using smooth_daily_usable [OF assms(1,2) sd] by simp_all
  have raw: "cumsum s_daily = map real_of_int ?u"
    using sd by (rule smooth_daily_cumsum)
  have raw_ok: "sorted (cumsum s_daily) \<and> (\<forall>x\<in>set (cumsum s_daily). 0 \<le> x) \<and>
                (cumsum s_daily \<noteq> [] \<longrightarrow> 0 < last (cumsum s_daily))"
    unfolding raw using sorted_positive_reals [OF u] positive_last [of "map real_of_int ?u"]
    by blast
  let ?c = "lowess_cumulative lowess cm s_daily"
  show ?thesis
  proof (cases "length s_daily < MIN_OBS \<or> last ?c = 0")
    case True
    then have "sm = cumsum s_daily"
      using assms(3) sd by (auto simp: smooth_def Let_def split: if_splits)
    with raw_ok show ?thesis
      by simp
  next
    case False
    then have obs: "MIN_OBS \<le> length s_daily" and c0: "last ?c \<noteq> 0"
      by simp_all
    have len: "length (lowess (real (n_smooth cm) / real (length s_daily)) s_daily) = length s_daily"
      using assms(3) sd obs by (auto simp: smooth_def Let_def split: if_splits)
    define q where "q = float64 (real_of_int (last s) / last ?c)"
    have sm: "sm = map (\<lambda>v. float64 (v * q)) ?c"
      using smooth_lowess_path [OF sd obs len c0] assms(3) by (simp add: q_def)
    have lc: "length ?c = length s_daily"
      using len by (simp add: lowess_cumulative_length)
    with obs have ne: "?c \<noteq> []"
      by (auto simp: MIN_OBS_def)
    have s0c: "sorted (0 # ?c)"
      unfolding lowess_cumulative_def by (rule cumsum_clip0_sorted)
    then have cs: "sorted ?c" and c_nonneg: "\<forall>v\<in>set ?c. 0 \<le> v"
      by simp_all
    then have "0 \<le> last ?c"
      using ne by simp
    with c0 have cpos: "0 < last ?c"
      by simp
    have "length (cumsum s_daily) = length s_daily"
      by (simp add: cumsum_def cumsum_from_length)
    with obs have "cumsum s_daily \<noteq> []"
      by (auto simp: MIN_OBS_def)
    then have une: "?u \<noteq> []"
      unfolding raw by simp
    have "s \<noteq> []" and ls: "last s = last (take (Suc (last_date cm)) s0)"
      using smooth_daily_last [OF sd] by simp_all
    have "last ?u = last s"
      using une \<open>s \<noteq> []\<close> by (cases s) (auto split: if_splits)
    moreover have "0 < last ?u"
      using u(2) une last_in_set by blast
    ultimately have "0 < real_of_int (last s)"
      by simp
    then have "0 < real_of_int (last s) / last ?c"
      using cpos by simp
    then have q: "0 < q"
      unfolding q_def by (rule float64_pos)
    have "sorted sm"
      unfolding sm using cs c_nonneg q by (intro sorted_map_float64_scale) simp_all
    moreover have "\<forall>x\<in>set sm. 0 \<le> x"
      unfolding sm using c_nonneg q by (auto intro!: float64_nonneg)
    moreover have "0 < last sm"
    proof -
      have "last sm = float64 (last ?c * q)"
        unfolding sm using ne by (simp add: last_map)
      moreover have "0 < last ?c * q"
        using cpos q by simp
      ultimately show ?thesis
        by (simp add: float64_pos)
    qed
    ultimately show ?thesis
      by simp
  qed
qed

lemma get_train_drop: "\<exists>k. get_train cm sm = drop k sm"
  unfolding get_train_def by (metis drop0)

lemma train_repaired:
  assumes "sorted s0" and "\<forall>x\<in>set s0. 0 \<le> x"
      and "smooth lowess cm s0 = Inr sm"
      and "2 \<le> length (get_train cm sm)"
  shows "\<exists>r p l. get_train cm sm = r @ [p, l] \<and> 0 \<le> p \<and> p \<le> l \<and> 0 < l"
proof -
  obtain k where k: "get_train cm sm = drop k sm"
    using get_train_drop by blast
  let ?t = "get_train cm sm"
  have ne: "?t \<noteq> []" and kl: "k < length sm"
    using assms(4) k by auto
  note sm = smooth_repaired [OF assms(1-3)]
  have st: "sorted ?t"
    unfolding k using sm by (simp add: sorted_wrt_drop)
  have nn: "\<forall>x\<in>set ?t. 0 \<le> x"
    unfolding k using sm by (meson in_set_dropD)
  have "last ?t = last sm"
    unfolding k using kl by simp
  then have pos: "0 < last ?t"
    using sm kl by auto
  obtain b l where b: "?t = b @ [l]"
    using ne by (metis append_butlast_last_id)
  with assms(4) have "b \<noteq> []"
    by auto
  then obtain r p where r: "b = r @ [p]"
    by (metis append_butlast_last_id)
  have t: "?t = r @ [p, l]"
    by (simp add: b r)
  have "p \<le> l"
    using st unfolding t by (simp add: sorted_append)
  moreover have "0 \<le> p"
    using nn unfolding t by simp
  moreover have "0 < l"
    using pos unfolding t by simp
  ultimately show ?thesis
    using t by blast
qed



section \<open>Initial guesses and their bounds\<close>

lemma pct_pairs_snoc:
  "pct_pairs (r @ [p, l]) = pct_pairs (r @ [p]) @ [fsub (fdiv (Fin l) (Fin p)) (Fin 1)]"
proof (induction r)
  case Nil
  show ?case by simp
next
  case (Cons x r)
  then show ?case by (cases r) simp_all
qed

lemma pct_change_last:
  "last (pct_change (r @ [p, l])) = fsub (fdiv (Fin l) (Fin p)) (Fin 1)"
proof -
  have "pct_change (r @ [p, l]) = NaN # pct_pairs (r @ [p, l])"
    by (cases r) (simp_all add: pct_change_def)
  then show ?thesis
    by (simp add: pct_pairs_snoc)
qed

text \<open>
  On a training series whose last two values \<open>p\<close> and \<open>l\<close> satisfy \<open>0 \<le> p \<le> l\<close> and
  \<open>0 < l\<close> the growth ratio is \<open>l / p\<close>, at least 1, or infinite (when \<open>p\<close> is zero, or when
  the quotient overflows); so are its powers, and the lower bound of \<open>L\<close> is infinite or at
  least \<open>l\<close>.
\<close>

lemma float64_overflow_gt: "2 ^ 1023 < float64_overflow"
  by (simp add: float64_overflow_def)

lemma float64_overflow_gt1: "1 < float64_overflow"
  using float64_overflow_gt by (rule less_trans [rotated]) simp

lemma fl_of_real_nonneg:
  "0 \<le> x \<Longrightarrow> fl_of_real x = (if float64_overflow \<le> x then PInf else Fin x)"
  using float64_overflow_gt1 by (simp add: fl_of_real_def)

lemma last_pct_snoc:
  "last_pct (r @ [p, l]) = fadd (fsub (fdiv (Fin l) (Fin p)) (Fin 1)) (Fin 1)"
  by (simp add: last_pct_def pct_change_last)

lemma last_pct_growth:
  assumes "0 \<le> p" and "p \<le> l" and "0 < l"
  shows "last_pct (r @ [p, l]) = (if p = 0 \<or> float64_overflow \<le> l / p then PInf else Fin (l / p))"
proof (cases "p = 0")
  case True
  then show ?thesis
    using assms(3) by (simp add: last_pct_snoc fsub_def inf_of_sign_def)
next
  case False
  with assms have g: "1 \<le> l / p"
    by simp
  then have "0 \<le> l / p" and "0 \<le> l / p - 1"
    by simp_all
  then show ?thesis
    using False float64_overflow_gt1
    by (simp add: last_pct_snoc fsub_def fl_of_real_nonneg)
qed

lemma fpow_PInf: "fpow PInf n = (if n = 0 then Fin 1 else PInf)"
  by (cases n) simp_all

lemma fpow_Fin:
  assumes "1 \<le> a"
  shows "fpow (Fin a) n = (if float64_overflow \<le> a ^ n then PInf else Fin (a ^ n))"
proof (cases n)
  case 0
  then show ?thesis
    using float64_overflow_gt1 by simp
next
  case (Suc m)
  have "0 \<le> a ^ n"
    using assms by simp
  then show ?thesis
    unfolding Suc by (simp add: fl_of_real_nonneg)
qed

lemma growth_cases:
  assumes "0 \<le> p" and "p \<le> l" and "0 < l"
  shows "last_pct (r @ [p, l]) = PInf \<or> (\<exists>a. last_pct (r @ [p, l]) = Fin a \<and> 1 \<le> a)"
proof (cases "p = 0 \<or> float64_overflow \<le> l / p")
  case True
  then show ?thesis
    by (simp add: last_pct_growth [OF assms])
next
  case False
  with assms have "1 \<le> l / p"
    by simp
  with False show ?thesis
    by (simp add: last_pct_growth [OF assms])
qed

lemma fpow_growth:
  assumes "g = PInf \<or> (\<exists>a. g = Fin a \<and> 1 \<le> a)"
  shows "fpow g n = PInf \<or> (\<exists>x. fpow g n = Fin x \<and> 1 \<le> x)"
  using assms
proof
  assume "g = PInf"
  then show ?thesis
    by (cases "n = 0") (simp_all add: fpow_PInf)
next
  assume "\<exists>a. g = Fin a \<and> 1 \<le> a"
  then obtain a where a: "g = Fin a" "1 \<le> a"
    by blast
  have "1 \<le> a ^ n"
    using a(2) by (rule one_le_power)
  then show ?thesis
    by (cases "float64_overflow \<le> a ^ n") (simp_all add: a fpow_Fin)
qed

lemma fpow_growth_mono:
  assumes "g = PInf \<or> (\<exists>a. g = Fin a \<and> 1 \<le> a)" and "n1 \<le> n2" and "fpow g n2 = Fin x2"
  shows "\<exists>x1. fpow g n1 = Fin x1 \<and> 1 \<le> x1 \<and> x1 \<le> x2"
  using assms(1)
proof
  assume "g = PInf"
  with assms(2,3) show ?thesis
    by (auto simp: fpow_PInf split: if_splits)
next
  assume "\<exists>a. g = Fin a \<and> 1 \<le> a"
  then obtain a where a: "g = Fin a" "1 \<le> a"
    by blast
  have le: "a ^ n1 \<le> a ^ n2"
    using a(2) assms(2) by (rule power_increasing [rotated])
  from assms(3) have x2: "x2 = a ^ n2" "a ^ n2 < float64_overflow"
    by (auto simp: a fpow_Fin split: if_splits)
  with le have "fpow g n1 = Fin (a ^ n1)"
    by (simp add: a fpow_Fin)
  with le x2 a(2) show ?thesis
    by simp
qed

lemma fmul_growth:
  assumes "0 < l" and "X = PInf \<or> (\<exists>x. X = Fin x \<and> 1 \<le> x)"
  shows "fmul (Fin l) X = PInf \<or> (\<exists>y. fmul (Fin l) X = Fin y \<and> l \<le> y)"
  using assms(2)
proof
  assume "X = PInf"
  with assms(1) show ?thesis
    by (simp add: inf_of_sign_def)
next
  assume "\<exists>x. X = Fin x \<and> 1 \<le> x"
  then obtain x where x: "X = Fin x" "1 \<le> x"
    by blast
  have "l * 1 \<le> l * x"
    using assms(1) x(2) by (intro mult_left_mono) simp_all
  then have "l \<le> l * x" and "0 \<le> l * x"
    using assms(1) by simp_all
  then show ?thesis
    by (simp add: x fl_of_real_nonneg)
qed


lemma midpoint_finite:
  assumes "0 \<le> A" and "A \<le> B" and "B < float64_overflow"
  shows "fadd (fdiv (fsub (Fin B) (Fin A)) (Fin 2)) (Fin A) = Fin ((B - A) / 2 + A)"
proof -
  have d: "0 \<le> B - A" "B - A < float64_overflow"
    using assms by linarith+
  have h: "0 \<le> (B - A) / 2" "(B - A) / 2 < float64_overflow"
    using d by simp_all
  have m: "0 \<le> (B - A) / 2 + A" "(B - A) / 2 + A < float64_overflow"
    using assms by (simp_all add: field_simps)
  have "fsub (Fin B) (Fin A) = Fin (B - A)"
    using d by (simp add: fsub_def fl_of_real_nonneg)
  moreover have "fdiv (Fin (B - A)) (Fin 2) = Fin ((B - A) / 2)"
    using h by (simp add: fl_of_real_nonneg)
  moreover have "fadd (Fin ((B - A) / 2)) (Fin A) = Fin ((B - A) / 2 + A)"
    using m by (simp add: fl_of_real_nonneg)
  ultimately show ?thesis
    by simp
qed

lemma L_limits_finite:
  assumes "0 < l" and "1 \<le> x1" and "x1 \<le> x2"
      and "fadd (fmul (Fin l) (Fin x2)) (Fin 1) = Fin B"
  shows "fmul (Fin l) (Fin x1) = Fin (l * x1) \<and> l * x1 + 1 \<le> B \<and> l + 1 \<le> B \<and>
         B < float64_overflow \<and>
         fadd (fdiv (fsub (Fin B) (Fin (l * x1))) (Fin 2)) (Fin (l * x1))
           = Fin ((B - l * x1) / 2 + l * x1)"
proof -
  have "l * 1 \<le> l * x1" and le: "l * x1 \<le> l * x2"
    using assms(1-3) by (intro mult_left_mono; simp)+
  then have l1: "l \<le> l * x1" and p1: "0 \<le> l * x1" and p2: "0 \<le> l * x2"
    using assms(1) by simp_all
  from assms(4) have m2: "l * x2 < float64_overflow"
    using p2 by (auto simp: fl_of_real_nonneg split: if_splits)
  with assms(4) p2 have B: "B = l * x2 + 1" "l * x2 + 1 < float64_overflow"
    by (auto simp: fl_of_real_nonneg split: if_splits)
  have A: "fmul (Fin l) (Fin x1) = Fin (l * x1)"
    using p1 le m2 by (simp add: fl_of_real_nonneg)
  have "l * x1 \<le> B" and "B < float64_overflow"
    using B le by linarith+
  with p1 have "fadd (fdiv (fsub (Fin B) (Fin (l * x1))) (Fin 2)) (Fin (l * x1))
                  = Fin ((B - l * x1) / 2 + l * x1)"
    by (rule midpoint_finite)
  then show ?thesis
    using A B le l1 by simp
qed

lemma midpoint_within_bounds:
  assumes "A \<le> B" and "0 \<le> last s" and "last s + 1 \<le> B" and "B < float64_overflow"
      and "1 / 10 \<le> k_max'"
  shows "p0_within_bounds (bounds_p0_of k_max' (Fin A, Fin B, Fin ((B - A) / 2 + A)) s)"
proof -
  have "A \<le> (B - A) / 2 + A" and "(B - A) / 2 + A \<le> B"
    using assms(1) by (simp_all add: field_simps)
  moreover have "0 \<le> last s + 1 / 100" and "last s + 1 / 100 < float64_overflow"
             and "0 \<le> (last s + 1 / 100) / 2" and "(last s + 1 / 100) / 2 < float64_overflow"
    using assms(2-4) by simp_all
  ultimately show ?thesis
    using assms(2,5) by (simp add: p0_within_bounds_def bounds_p0_of_def fl_of_real_nonneg)
qed

lemma get_L_limits_growth:
  assumes "0 \<le> p" and "p \<le> l" and "0 < l" and "L_n_min cm \<le> L_n_max cm"
      and "get_L_limits cm (r @ [p, l]) = Inr (L_min, Fin B, L0)"
  shows "\<exists>A. L_min = Fin A \<and> L0 = Fin ((B - A) / 2 + A) \<and> A + 1 \<le> B \<and> l + 1 \<le> B \<and>
             B < float64_overflow"
proof -
  let ?g = "last_pct (r @ [p, l])"
  note g = growth_cases [OF assms(1-3), of r]
  from assms(5) have B: "fadd (fmul (Fin l) (fpow ?g (L_n_max cm))) (Fin 1) = Fin B"
    and L_min: "L_min = fmul (Fin l) (fpow ?g (L_n_min cm))"
    and L0: "L0 = fadd (fdiv (fsub (Fin B) L_min) (Fin 2)) L_min"
    by (auto simp: get_L_limits_def Let_def)
  have "fpow ?g (L_n_max cm) \<noteq> PInf"
    using B assms(3) by (auto simp: inf_of_sign_def)
  then obtain x2 where x2: "fpow ?g (L_n_max cm) = Fin x2"
    using fpow_growth [OF g, of "L_n_max cm"] by blast
  obtain x1 where x1: "fpow ?g (L_n_min cm) = Fin x1" "1 \<le> x1" "x1 \<le> x2"
    using fpow_growth_mono [OF g assms(4) x2] by blast
  note f = L_limits_finite [OF assms(3) x1(2,3) B [unfolded x2]]
  have "L_min = Fin (l * x1)"
    using f by (simp add: L_min x1(1))
  then show ?thesis
    using f L0 by simp
qed

lemma get_L_limits_nb07_eq:
  "get_L_limits_nb07 s (L_n_min cm) (L_n_max cm) =
     (case get_L_limits cm s of
        Inl e \<Rightarrow> Inl e
      | Inr (L_min, L_max, L0) \<Rightarrow>
          if isnan L_min then Inr (Fin 0, Fin 1, Fin 0) else Inr (L_min, L_max, L0))"
  by (simp add: get_L_limits_nb07_def get_L_limits_def Let_def)

lemma L_min_not_nan:
  assumes "0 \<le> p" and "p \<le> l" and "0 < l"
      and "get_L_limits cm (r @ [p, l]) = Inr (L_min, L_max, L0)"
  shows "\<not> isnan L_min"
proof -
  have L_min: "L_min = fmul (Fin l) (fpow (last_pct (r @ [p, l])) (L_n_min cm))"
    using assms(4) by (simp add: get_L_limits_def Let_def)
  have "L_min = PInf \<or> (\<exists>y. L_min = Fin y \<and> l \<le> y)"
    unfolding L_min using assms(3) by (intro fmul_growth fpow_growth growth_cases [OF assms(1-3)])
  then show ?thesis
    by (auto simp: isnan_def)
qed

lemma get_L_limits_nb07_growth:
  assumes "0 \<le> p" and "p \<le> l" and "0 < l"
  shows "get_L_limits_nb07 (r @ [p, l]) (L_n_min cm) (L_n_max cm) = get_L_limits cm (r @ [p, l])"
proof -
  obtain L_min L_max L0 where L: "get_L_limits cm (r @ [p, l]) = Inr (L_min, L_max, L0)"
    by (simp add: get_L_limits_def Let_def)
  show ?thesis
    using L_min_not_nan [OF assms L] by (simp add: get_L_limits_nb07_eq L)
qed







text \<open>
  The initial guess is within its bounds whenever the upper bound of \<open>L\<close> is finite. \<open>run\<close>
  estimates bounds on the training series of a repaired series when it has at least
  \<open>MIN_OBS\<close> values. If the horizons are in order and the estimated \<open>L_max\<close> is finite, at
  most \<open>2 ^ 1023\<close> (a margin under the overflow threshold for the rounding that is not
  modelled), every initial guess lies within its own bounds, for the method of
  \<^verbatim>\<open>CasesModel\<close> and for the function of chapter 7: \<open>L_min \<le> L0 \<le> L_max\<close>,
  \<open>-50 \<le> 0 \<le> 50\<close>, \<open>k_min \<le> 0.1 \<le> k_max\<close>, \<open>v_min \<le> 0.1 \<le> v_max\<close> and
  \<open>0 \<le> s0 \<le> s_max\<close>.
\<close>

lemma guess_within_finite_bounds:
  assumes "sorted s0" and "\<forall>x\<in>set s0. 0 \<le> x"
      and "smooth lowess cm s0 = Inr sm"
      and "MIN_OBS \<le> length (get_train cm sm)"
      and "L_n_min cm \<le> L_n_max cm"
      and "get_L_limits cm (get_train cm sm) = Inr (L_min, Fin B, L0)"
      and "B \<le> 2 ^ 1023"
  shows "(\<exists>bp. get_bounds_p0 cm (get_train cm sm) = Inr bp \<and> p0_within_bounds bp) \<and>
         (\<exists>bp. get_bounds_p0_nb07 (get_train cm sm) (L_n_min cm) (L_n_max cm) = Inr bp \<and>
               p0_within_bounds bp)"
proof -
  let ?train = "get_train cm sm"
  have two: "2 \<le> length ?train"
    using assms(4) by (simp add: MIN_OBS_def)
  obtain r p l where t: "?train = r @ [p, l]" and p: "0 \<le> p" "p \<le> l" and l: "0 < l"
    using train_repaired [OF assms(1-3) two] by blast
  obtain A where A: "L_min = Fin A" "L0 = Fin ((B - A) / 2 + A)" "A + 1 \<le> B" "l + 1 \<le> B"
      "B < float64_overflow"
    using get_L_limits_growth [OF p l assms(5,6) [unfolded t]] by blast
  have Ls: "get_L_limits cm ?train = Inr (Fin A, Fin B, Fin ((B - A) / 2 + A))"
    using assms(6) A(1,2) by simp
  have Ls7: "get_L_limits_nb07 ?train (L_n_min cm) (L_n_max cm)
               = Inr (Fin A, Fin B, Fin ((B - A) / 2 + A))"
    using get_L_limits_nb07_growth [OF p l, of r cm] Ls by (simp add: t)
  have last: "0 \<le> last ?train" "last ?train + 1 \<le> B"
    using l A(4) by (simp_all add: t)
  have AB: "A \<le> B"
    using A(3) by simp
  have "p0_within_bounds (bounds_p0_of (1 / 2) (Fin A, Fin B, Fin ((B - A) / 2 + A)) ?train)"
    using AB last A(5) by (rule midpoint_within_bounds) simp
  moreover have "p0_within_bounds (bounds_p0_of (1 / 10) (Fin A, Fin B, Fin ((B - A) / 2 + A)) ?train)"
    using AB last A(5) by (rule midpoint_within_bounds) simp
  ultimately show ?thesis
    by (simp add: get_bounds_p0_def get_bounds_p0_nb07_def Ls Ls7)
qed

text \<open>
  Two series with an infinite growth ratio. Chapter 7 calls its \<^verbatim>\<open>get_bounds_p0\<close> on the
  cumulative series of an area up to the last date
  (\<^verbatim>\<open>bounds, p0 = get_bounds_p0(cases[:last_date])\<close>); for an area whose first 5 cases are
  reported on the last date the series ends 0, 5. In chapter 8 the series that stays at 3
  for fifteen days and reaches 10 on the sixteenth is a repaired series; with a smoother that
  returns zero for every day but the last, the smoothed series is zero up to its last value
  10.
\<close>

lemma last_pct_first_cases:
  "last_pct [0, 0, 0, 0, 0, 0, 0, 0, 0, 0, 0, 0, 0, 0, 5] = PInf"
  using last_pct_growth [of 0 5 "[0, 0, 0, 0, 0, 0, 0, 0, 0, 0, 0, 0, 0]"] by simp

lemma last_pct_no_cases:
  "last_pct [0, 0, 0, 0, 0, 0, 0, 0, 0, 0, 0, 0, 0, 0, 0] = NaN"
  by (simp add: last_pct_def pct_change_def fsub_def inf_of_sign_def)

lemma last_pct_last_day:
  "last_pct [0, 0, 0, 0, 0, 0, 0, 0, 0, 0, 0, 0, 0, 0, 0, 10] = PInf"
  using last_pct_growth [of 0 10 "[0, 0, 0, 0, 0, 0, 0, 0, 0, 0, 0, 0, 0, 0]"] by simp

lemma smooth_daily_flat:
  "smooth_daily \<lparr>last_date = 15, n_train = 60, n_smooth = 15, n_pred = 30, L_n_min = 5, L_n_max = 50\<rparr>
      [3, 3, 3, 3, 3, 3, 3, 3, 3, 3, 3, 3, 3, 3, 3, 10]
    = Inr ([3, 3, 3, 3, 3, 3, 3, 3, 3, 3, 3, 3, 3, 3, 3, 10],
           [3, 0, 0, 0, 0, 0, 0, 0, 0, 0, 0, 0, 0, 0, 0, 7])"
  by (simp add: smooth_daily_def diff_def fillna_def)

lemma lowess_cumulative_last_day:
  "lowess_cumulative (\<lambda>frac y. map (\<lambda>v. 0) (butlast y) @ [last y])
      \<lparr>last_date = 15, n_train = 60, n_smooth = 15, n_pred = 30, L_n_min = 5, L_n_max = 50\<rparr>
      [3, 0, 0, 0, 0, 0, 0, 0, 0, 0, 0, 0, 0, 0, 0, 7]
    = [0, 0, 0, 0, 0, 0, 0, 0, 0, 0, 0, 0, 0, 0, 0, 7]"
  by (simp add: lowess_cumulative_def cumsum_def clip0_def)

lemma float64_10: "float64 (7 * float64 (10 / 7)) = 10"
  by code_simp

lemma smooth_last_day:
  "smooth (\<lambda>frac y. map (\<lambda>v. 0) (butlast y) @ [last y])
      \<lparr>last_date = 15, n_train = 60, n_smooth = 15, n_pred = 30, L_n_min = 5, L_n_max = 50\<rparr>
      [3, 3, 3, 3, 3, 3, 3, 3, 3, 3, 3, 3, 3, 3, 3, 10]
    = Inr [0, 0, 0, 0, 0, 0, 0, 0, 0, 0, 0, 0, 0, 0, 0, 10]"
  using smooth_lowess_path [OF smooth_daily_flat, of "\<lambda>frac y. map (\<lambda>v. 0) (butlast y) @ [last y]"]
  by (simp add: lowess_cumulative_last_day MIN_OBS_def float64_10 float64_0)

text \<open>
  Claim C8 on the code. When the value before the last is zero and the last is positive, the
  growth ratio is infinite, \<open>L_min\<close> and \<open>L_max\<close> are both infinite, their midpoint \<open>L0\<close> is
  NaN, and no comparison with NaN holds: the initial guess of \<open>L\<close> is not within its bounds,
  for the function of chapter 7 on the series ending 0, 5 and for the method of
  \<^verbatim>\<open>CasesModel\<close> on the smoothed series ending 0, 10.
\<close>

theorem initial_guess_outside_bounds:
  "map_sum id p0_within_bounds
     (get_bounds_p0_nb07 [0, 0, 0, 0, 0, 0, 0, 0, 0, 0, 0, 0, 0, 0, 5] 5 50) = Inr False \<and>
   smooth (\<lambda>frac y. map (\<lambda>v. 0) (butlast y) @ [last y])
      \<lparr>last_date = 15, n_train = 60, n_smooth = 15, n_pred = 30, L_n_min = 5, L_n_max = 50\<rparr>
      [3, 3, 3, 3, 3, 3, 3, 3, 3, 3, 3, 3, 3, 3, 3, 10]
    = Inr [0, 0, 0, 0, 0, 0, 0, 0, 0, 0, 0, 0, 0, 0, 0, 10] \<and>
   map_sum id p0_within_bounds
     (get_bounds_p0 \<lparr>last_date = 15, n_train = 60, n_smooth = 15, n_pred = 30, L_n_min = 5, L_n_max = 50\<rparr>
        (get_train \<lparr>last_date = 15, n_train = 60, n_smooth = 15, n_pred = 30, L_n_min = 5, L_n_max = 50\<rparr>
           [0, 0, 0, 0, 0, 0, 0, 0, 0, 0, 0, 0, 0, 0, 0, 10])) = Inr False"
  by (simp add: get_bounds_p0_nb07_def get_bounds_p0_def get_L_limits_nb07_def get_L_limits_def
      get_train_def last_pct_first_cases last_pct_last_day smooth_last_day fpow_PInf
      inf_of_sign_def fsub_def isnan_def bounds_p0_of_def p0_within_bounds_def Let_def)

text \<open>
  The same happens by overflow, with a finite growth ratio: from 1 to \<open>10 ^ 70\<close> and horizons
  5 and 6, both powers overflow.
\<close>

lemma get_L_limits_overflow:
  "get_L_limits \<lparr>last_date = 14, n_train = 60, n_smooth = 15, n_pred = 30, L_n_min = 5, L_n_max = 6\<rparr>
     [1, 1, 1, 1, 1, 1, 1, 1, 1, 1, 1, 1, 1, 1, 10 ^ 70] = Inr (PInf, PInf, NaN)"
proof -
  have g: "last_pct [1, 1, 1, 1, 1, 1, 1, 1, 1, 1, 1, 1, 1, 1, 10 ^ 70] = Fin (10 ^ 70)"
    using last_pct_growth [of 1 "10 ^ 70" "[1, 1, 1, 1, 1, 1, 1, 1, 1, 1, 1, 1, 1]"]
    by (simp add: float64_overflow_def)
  show ?thesis
    unfolding get_L_limits_def g Let_def
    by (simp add: fpow_Fin float64_overflow_def fsub_def inf_of_sign_def)
qed

section \<open>An undefined growth ratio\<close>

lemma get_L_limits_nb07_nan:
  assumes "s \<noteq> []" and "0 < n1" and "isnan (last_pct s)"
  shows "get_L_limits_nb07 s n1 n2 = Inr (Fin 0, Fin 1, Fin 0)"
proof -
  obtain m where "n1 = Suc m"
    using assms(2) by (cases n1) simp_all
  then show ?thesis
    using assms(1,3) by (simp add: get_L_limits_nb07_def isnan_def Let_def)
qed

text \<open>
  The growth ratio is NaN when the last percent change is: on a series of one value, or one
  that ends in two zeros. The function of chapter 7 then returns 0, 1 and 0 for \<open>L_min\<close>,
  \<open>L_max\<close> and \<open>L0\<close>, provided its lower horizon \<open>n1\<close> is positive (anything to the power 0
  is 1, NaN included). The method of \<^verbatim>\<open>CasesModel\<close> has no such guard, and \<open>run\<close> gives it no
  such series: it calls the method on the training series of a repaired series when it has at
  least \<open>MIN_OBS\<close> values, whose last value is positive, so the growth ratio is not NaN
  there, and the method returns what the function of chapter 7 returns.
\<close>

lemma nan_growth_collapses:
  assumes "sorted s0" and "\<forall>x\<in>set s0. 0 \<le> x"
      and "smooth lowess cm s0 = Inr sm"
      and "MIN_OBS \<le> length (get_train cm sm)"
  shows "(s \<noteq> [] \<longrightarrow> 0 < n1 \<longrightarrow> isnan (last_pct s) \<longrightarrow>
            get_L_limits_nb07 s n1 n2 = Inr (Fin 0, Fin 1, Fin 0)) \<and>
         \<not> isnan (last_pct (get_train cm sm)) \<and>
         get_L_limits cm (get_train cm sm)
           = get_L_limits_nb07 (get_train cm sm) (L_n_min cm) (L_n_max cm)"
proof -
  let ?train = "get_train cm sm"
  have two: "2 \<le> length ?train"
    using assms(4) by (simp add: MIN_OBS_def)
  obtain r p l where t: "?train = r @ [p, l]" and p: "0 \<le> p" "p \<le> l" and l: "0 < l"
    using train_repaired [OF assms(1-3) two] by blast
  have "\<not> isnan (last_pct ?train)"
    unfolding t using growth_cases [OF p l, of r] by (auto simp: isnan_def)
  moreover have "get_L_limits cm ?train = get_L_limits_nb07 ?train (L_n_min cm) (L_n_max cm)"
    unfolding t using get_L_limits_nb07_growth [OF p l, of r cm] by simp
  ultimately show ?thesis
    using get_L_limits_nb07_nan [of s n1 n2] by simp
qed

text \<open>
  Claim C4 on the code. The growth ratio is a division by the value before the last. When
  that value is zero and the last value is positive, the ratio is infinite and not NaN: the
  guard of chapter 7 tests \<open>L_min\<close> for NaN only, \<open>L_min\<close> is infinite, and the function
  returns infinite bounds and NaN for \<open>L0\<close> on the series ending 0, 5, where it returns 0, 1
  and 0 on the series of zeros. The method of \<^verbatim>\<open>CasesModel\<close> returns the same on the smoothed
  series ending 0, 10.
\<close>

theorem get_L_limits_infinite_growth:
  "get_L_limits_nb07 [0, 0, 0, 0, 0, 0, 0, 0, 0, 0, 0, 0, 0, 0, 5] 5 50 = Inr (PInf, PInf, NaN) \<and>
   get_L_limits_nb07 [0, 0, 0, 0, 0, 0, 0, 0, 0, 0, 0, 0, 0, 0, 0] 5 50 = Inr (Fin 0, Fin 1, Fin 0) \<and>
   smooth (\<lambda>frac y. map (\<lambda>v. 0) (butlast y) @ [last y])
      \<lparr>last_date = 15, n_train = 60, n_smooth = 15, n_pred = 30, L_n_min = 5, L_n_max = 50\<rparr>
      [3, 3, 3, 3, 3, 3, 3, 3, 3, 3, 3, 3, 3, 3, 3, 10]
    = Inr [0, 0, 0, 0, 0, 0, 0, 0, 0, 0, 0, 0, 0, 0, 0, 10] \<and>
   get_L_limits \<lparr>last_date = 15, n_train = 60, n_smooth = 15, n_pred = 30, L_n_min = 5, L_n_max = 50\<rparr>
      (get_train \<lparr>last_date = 15, n_train = 60, n_smooth = 15, n_pred = 30, L_n_min = 5, L_n_max = 50\<rparr>
         [0, 0, 0, 0, 0, 0, 0, 0, 0, 0, 0, 0, 0, 0, 0, 10])
    = Inr (PInf, PInf, NaN)"
proof -
  have "get_L_limits_nb07 [0, 0, 0, 0, 0, 0, 0, 0, 0, 0, 0, 0, 0, 0, 0] 5 50
          = Inr (Fin 0, Fin 1, Fin 0)"
    by (rule get_L_limits_nb07_nan) (simp_all add: last_pct_no_cases isnan_def)
  then show ?thesis
    by (simp add: get_L_limits_nb07_def get_L_limits_def get_train_def last_pct_first_cases
        last_pct_last_day smooth_last_day fpow_PInf inf_of_sign_def fsub_def isnan_def Let_def)
qed

section \<open>The first forecast value and the last actual value\<close>


lemma arange_length: "length (arange a b) = nat (b - a)"
  by (simp add: arange_def)

lemma diffs_length: "length (diffs xs) = length xs - 1"
  by (induction xs rule: diffs.induct) simp_all

lemma get_pred_daily_length: "length (get_pred_daily model cm n ps) = n_pred cm"
  by (simp add: get_pred_daily_def Let_def diffs_length arange_length)







section \<open>The case fatality ratio with no cases\<close>

lemma calculate_cfr_totals:
  assumes "window_total deaths (dm_last_date dm) (dm_last_date dm - period dm) = Inr deaths_total"
      and "window_total cases (dm_last_date dm - lag dm) (dm_last_date dm - lag dm - period dm) = Inr cases_total"
  shows "calculate_cfr dm deaths cases =
           Inr (fl_fillna (1 / 100) (fdiv (Fin (real_of_int deaths_total)) (Fin (real_of_int cases_total))))"
  using assms by (simp add: calculate_cfr_def Let_def)

text \<open>With no deaths and no cases in the windows the ratio is the fallback 0.01.\<close>

lemma calculate_cfr_fallback:
  assumes "window_total deaths (dm_last_date dm) (dm_last_date dm - period dm) = Inr 0"
      and "window_total cases (dm_last_date dm - lag dm) (dm_last_date dm - lag dm - period dm) = Inr 0"
  shows "calculate_cfr dm deaths cases = Inr (Fin (1 / 100))"
  using calculate_cfr_totals [OF assms] by (simp add: fl_fillna_def isnan_def inf_of_sign_def)

text \<open>With deaths but no cases it is infinite: \<^verbatim>\<open>fillna\<close> replaces NaN only.\<close>

lemma calculate_cfr_infinite:
  assumes "window_total deaths (dm_last_date dm) (dm_last_date dm - period dm) = Inr deaths_total"
      and "window_total cases (dm_last_date dm - lag dm) (dm_last_date dm - lag dm - period dm) = Inr 0"
      and "0 < deaths_total"
  shows "calculate_cfr dm deaths cases = Inr PInf"
  using calculate_cfr_totals [OF assms(1,2)] assms(3)
  by (simp add: fl_fillna_def isnan_def inf_of_sign_def)

text \<open>
  Claim C3 on the code, with the lag of 15 days and the period of 30 days of the notebook:
  deaths go from 10 to 13 over the last 30 days, cases stay at 40 over the 30 days that end 15
  days earlier. The total of cases is zero and the ratio is infinite, not the fallback.
\<close>

theorem calculate_cfr_zero_cases_infinite:
  "calculate_cfr \<lparr>dm_last_date = 45, lag = 15, period = 30\<rparr>
     (replicate 45 10 @ [13]) (replicate 46 40) = Inr PInf"
  by (simp add: calculate_cfr_def window_total_def loc_def fl_fillna_def isnan_def inf_of_sign_def
      nth_append)

end
